theory Spec2Isabelle
  imports Main
begin

section \<open>The node graph of core.js\<close>

text \<open>
  The module core.js defines the classes of the AST nodes and a printer of the node graph
  that is installed on \<^verbatim>\<open>Program.prototype\<close>. Nodes are JavaScript objects: they have an
  identity, they may be shared and they may refer to each other in cycles. The embedding
  therefore keeps an explicit store: a list of objects, the address of an object being
  its index.

  A value is a primitive or a reference to an object of the store. Numbers are only ever
  handed to the host's \<^verbatim>\<open>util.inspect\<close> and to string conversion, both outside the
  module, so their representation as integers carries no weight.
\<close>

type_synonym addr = nat

datatype prim = Undefined | Null | Boolean bool | Number int | String string

datatype val = Prim prim | Ref addr

text \<open>
  An object is an array (its elements in index order) or an instance of a class: the name
  of its constructor and its own enumerable properties in the order in which
  \<^verbatim>\<open>Object.values\<close> and \<^verbatim>\<open>Object.entries\<close> enumerate them (for the classes of this
  module, the order of the \<^verbatim>\<open>Object.assign\<close> calls of the constructors). The classes of
  the module have distinct names, so \<^verbatim>\<open>node.constructor === Token\<close> is the test that the
  constructor name is \<open>Token\<close>.
\<close>

datatype obj = Object string "(string \<times> val) list" | Array "val list"

type_synonym heap = "obj list"

definition lookup :: "heap \<Rightarrow> addr \<Rightarrow> obj option" where
  "lookup h a = (if a < length h then Some (h ! a) else None)"

text \<open>Reading a property that an object does not have gives \<^verbatim>\<open>undefined\<close>.\<close>

definition own_property :: "(string \<times> val) list \<Rightarrow> string \<Rightarrow> val" where
  "own_property ps k = (case map_of ps k of Some v \<Rightarrow> v | None \<Rightarrow> Prim Undefined)"

text \<open>
  What the module throws. \<^verbatim>\<open>error\<close> throws \<^verbatim>\<open>new Error(message)\<close>; the language itself
  throws a \<^verbatim>\<open>TypeError\<close> when a property of \<^verbatim>\<open>undefined\<close> or \<^verbatim>\<open>null\<close> is read or a
  non-function is called, and a \<^verbatim>\<open>ReferenceError\<close> when the constructor of a derived class
  returns without having called \<^verbatim>\<open>super\<close>.
\<close>

datatype exn = Error string | TypeError | ReferenceError

text \<open>
  The member access \<^verbatim>\<open>v.k\<close> for the property names the module reads (\<open>typename\<close>,
  \<open>contents\<close>, \<open>value\<close>): none of them is a member of an array or of a primitive's wrapper.
\<close>

definition member :: "heap \<Rightarrow> val \<Rightarrow> string \<Rightarrow> exn + val" where
  "member h v k =
     (case v of
        Prim Undefined \<Rightarrow> Inl TypeError
      | Prim Null \<Rightarrow> Inl TypeError
      | Prim _ \<Rightarrow> Inr (Prim Undefined)
      | Ref a \<Rightarrow>
          (case lookup h a of
             Some (Object c ps) \<Rightarrow> Inr (own_property ps k)
           | _ \<Rightarrow> Inr (Prim Undefined)))"

subsection \<open>Strings\<close>

text \<open>
  A template literal converts the value of each placeholder to a string. A string is
  itself; the conversion of every other value belongs to the host and is the parameter
  \<open>str\<close>.
\<close>

definition template :: "(val \<Rightarrow> string) \<Rightarrow> val \<Rightarrow> string" where
  "template str v = (case v of Prim (String s) \<Rightarrow> s | _ \<Rightarrow> str v)"

text \<open>\<^verbatim>\<open>Array.prototype.join\<close> on strings.\<close>

fun join :: "string \<Rightarrow> string list \<Rightarrow> string" where
  "join sep [] = []"
| "join sep [x] = x"
| "join sep (x # y # ys) = x @ sep @ join sep (y # ys)"

text \<open>\<^verbatim>\<open>join\<close> renders the elements \<^verbatim>\<open>undefined\<close> and \<^verbatim>\<open>null\<close> as the empty string.\<close>

definition join_elem :: "(val \<Rightarrow> string) \<Rightarrow> val \<Rightarrow> string" where
  "join_elem str v =
     (case v of Prim Undefined \<Rightarrow> [] | Prim Null \<Rightarrow> [] | _ \<Rightarrow> template str v)"

text \<open>\<^verbatim>\<open>String(id)\<close> for a non-negative integer: its decimal digits.\<close>

definition digit :: "nat \<Rightarrow> char" where
  "digit d = char_of (48 + d)"

function show_nat :: "nat \<Rightarrow> string" where
  "show_nat n = (if n < 10 then [digit n] else show_nat (n div 10) @ [digit (n mod 10)])"
  by pat_completeness auto
termination
  by (relation "measure id") auto

text \<open>\<^verbatim>\<open>s.padStart(k, c)\<close> for a one-character pad string.\<close>

definition padStart :: "nat \<Rightarrow> char \<Rightarrow> string \<Rightarrow> string" where
  "padStart k c s = replicate (k - length s) c @ s"

subsection \<open>Constructors\<close>

text \<open>\<^verbatim>\<open>new C(...)\<close> allocates the object at the next free address.\<close>

definition alloc :: "obj \<Rightarrow> heap \<Rightarrow> addr \<times> heap" where
  "alloc ob h = (length h, h @ [ob])"

text \<open>\<^verbatim>\<open>x instanceof Type\<close>: an instance of \<open>Type\<close> or of one of its two subclasses.\<close>

definition Type_classes :: "string list" where
  "Type_classes = [''Type'', ''ArrayType'', ''FunctionType'']"

definition instanceof_Type :: "heap \<Rightarrow> val \<Rightarrow> bool" where
  "instanceof_Type h v =
     (case v of
        Ref a \<Rightarrow> (case lookup h a of Some (Object c ps) \<Rightarrow> c \<in> set Type_classes | _ \<Rightarrow> False)
      | Prim p \<Rightarrow> False)"

definition new_Type :: "val \<Rightarrow> heap \<Rightarrow> addr \<times> heap" where
  "new_Type typename h = alloc (Object ''Type'' [(''typename'', typename)]) h"

text \<open>
  The constructor of \<open>ArrayType\<close> calls \<^verbatim>\<open>super\<close> only inside the \<^verbatim>\<open>instanceof\<close> test.
  When the test fails the body ends with \<^verbatim>\<open>this\<close> uninitialised, and the implicit return
  of a derived constructor then throws a \<^verbatim>\<open>ReferenceError\<close>.
\<close>

definition new_ArrayType :: "(val \<Rightarrow> string) \<Rightarrow> val \<Rightarrow> heap \<Rightarrow> exn + addr \<times> heap" where
  "new_ArrayType str elementType h =
     (if instanceof_Type h elementType then
        (case member h elementType ''typename'' of
           Inl e \<Rightarrow> Inl e
         | Inr tn \<Rightarrow>
             Inr (alloc (Object ''ArrayType''
               [(''typename'', Prim (String (''['' @ template str tn @ '']''))),
                (''elementType'', elementType)]) h))
      else Inl ReferenceError)"

text \<open>\<^verbatim>\<open>paramTypes.map((t) => t.typename)\<close>, stopping at the first element that throws.\<close>

fun typenames :: "heap \<Rightarrow> val list \<Rightarrow> exn + val list" where
  "typenames h [] = Inr []"
| "typenames h (t # ts) =
     (case member h t ''typename'' of
        Inl e \<Rightarrow> Inl e
      | Inr tn \<Rightarrow> (case typenames h ts of Inl e \<Rightarrow> Inl e | Inr tns \<Rightarrow> Inr (tn # tns)))"

text \<open>
  \<open>FunctionType\<close> evaluates the argument of \<^verbatim>\<open>super\<close> first: \<^verbatim>\<open>paramTypes.map\<close> is a
  function only when \<^verbatim>\<open>paramTypes\<close> is an array.
\<close>

definition new_FunctionType :: "(val \<Rightarrow> string) \<Rightarrow> val \<Rightarrow> val \<Rightarrow> heap \<Rightarrow> exn + addr \<times> heap" where
  "new_FunctionType str paramTypes returnType h =
     (case paramTypes of
        Prim p \<Rightarrow> Inl TypeError
      | Ref a \<Rightarrow>
          (case lookup h a of
             Some (Array ts) \<Rightarrow>
               (case typenames h ts of
                  Inl e \<Rightarrow> Inl e
                | Inr tns \<Rightarrow>
                    (case member h returnType ''typename'' of
                       Inl e \<Rightarrow> Inl e
                     | Inr rn \<Rightarrow>
                         Inr (alloc (Object ''FunctionType''
                           [(''typename'', Prim (String
                               (''('' @ join '','' (map (join_elem str) tns) @ '')->''
                                @ template str rn))),
                            (''paramTypes'', paramTypes),
                            (''returnType'', returnType)]) h)))
           | _ \<Rightarrow> Inl TypeError))"

text \<open>
  The static fields of \<open>Type\<close> are created when the class is defined, in the order
  BOOLEAN, INT, DOUBLE, STRING, VOID; they are the first five objects of the store.
\<close>

definition static_heap :: heap where
  "static_heap =
     [Object ''Type'' [(''typename'', Prim (String ''boolin''))],
      Object ''Type'' [(''typename'', Prim (String ''pog''))],
      Object ''Type'' [(''typename'', Prim (String ''dublin''))],
      Object ''Type'' [(''typename'', Prim (String ''manyCars''))],
      Object ''Type'' [(''typename'', Prim (String ''nada''))]]"

definition Type_BOOLEAN :: val where "Type_BOOLEAN = Ref 0"
definition Type_INT :: val where "Type_INT = Ref 1"
definition Type_DOUBLE :: val where "Type_DOUBLE = Ref 2"
definition Type_STRING :: val where "Type_STRING = Ref 3"
definition Type_VOID :: val where "Type_VOID = Ref 4"

text \<open>The constructors of the node classes that the examples below build.\<close>

definition new_Array :: "val list \<Rightarrow> heap \<Rightarrow> addr \<times> heap" where
  "new_Array elems h = alloc (Array elems) h"

definition new_Program :: "val \<Rightarrow> heap \<Rightarrow> addr \<times> heap" where
  "new_Program statements h = alloc (Object ''Program'' [(''statements'', statements)]) h"

definition new_VariableDeclaration :: "val \<Rightarrow> val \<Rightarrow> val \<Rightarrow> heap \<Rightarrow> addr \<times> heap" where
  "new_VariableDeclaration type variable initializer h =
     alloc (Object ''VariableDeclaration''
       [(''type'', type), (''variable'', variable), (''initializer'', initializer)]) h"

definition new_Variable :: "val \<Rightarrow> heap \<Rightarrow> addr \<times> heap" where
  "new_Variable name h = alloc (Object ''Variable'' [(''name'', name)]) h"

definition new_Token :: "val \<Rightarrow> val \<Rightarrow> heap \<Rightarrow> addr \<times> heap" where
  "new_Token category source h =
     alloc (Object ''Token'' [(''category'', category), (''source'', source)]) h"

subsection \<open>The diagnostic error\<close>

text \<open>
  \<^verbatim>\<open>error(message, token)\<close>: the enrichment with the token's position is commented out in
  the source, so the token is ignored and the function always throws.
\<close>

definition error :: "string \<Rightarrow> val \<Rightarrow> exn + unit" where
  "error message token = Inl (Error message)"

section \<open>The serializer\<close>

text \<open>
  \<^verbatim>\<open>Program.prototype[util.inspect.custom]\<close> creates a \<^verbatim>\<open>Map\<close> from nodes to integers,
  fills it with the recursive function \<^verbatim>\<open>tag\<close> and then renders one line per entry. The
  state of a run is the store of the nodes together with that map. A \<^verbatim>\<open>Map\<close> iterates in
  insertion order, so it is an association list with the newest entry last.
\<close>

record store =
  nodes :: heap
  tags :: "(addr \<times> nat) list"

definition has :: "(addr \<times> nat) list \<Rightarrow> addr \<Rightarrow> bool" where
  "has t a = (map_of t a \<noteq> None)"

text \<open>\<^verbatim>\<open>tags.set(node, tags.size + 1)\<close>, which the source reaches only for a new key.\<close>

definition set_next :: "addr \<Rightarrow> store \<Rightarrow> store" where
  "set_next a s = s\<lparr>tags := tags s @ [(a, length (tags s) + 1)]\<rparr>"

definition is_Token :: "obj \<Rightarrow> bool" where
  "is_Token ob = (case ob of Object c ps \<Rightarrow> c = ''Token'' | Array es \<Rightarrow> False)"

text \<open>\<^verbatim>\<open>Object.values(node)\<close>, \<^verbatim>\<open>Object.entries(node)\<close> and \<^verbatim>\<open>node.constructor.name\<close>.\<close>

definition obj_values :: "obj \<Rightarrow> val list" where
  "obj_values ob = (case ob of Object c ps \<Rightarrow> map snd ps | Array es \<Rightarrow> es)"

definition obj_entries :: "obj \<Rightarrow> (string \<times> val) list" where
  "obj_entries ob =
     (case ob of
        Object c ps \<Rightarrow> ps
      | Array es \<Rightarrow> zip (map show_nat [0..<length es]) es)"

definition constructor_name :: "obj \<Rightarrow> string" where
  "constructor_name ob = (case ob of Object c ps \<Rightarrow> c | Array es \<Rightarrow> ''Array'')"

text \<open>\<^verbatim>\<open>Array.isArray(child)\<close>, with the elements when it holds.\<close>

definition array_elems :: "heap \<Rightarrow> val \<Rightarrow> val list option" where
  "array_elems h v =
     (case v of
        Ref a \<Rightarrow> (case lookup h a of Some (Array es) \<Rightarrow> Some es | _ \<Rightarrow> None)
      | Prim p \<Rightarrow> None)"

text \<open>
  \<^verbatim>\<open>tag\<close> recurses through the store, and nothing bounds the recursion when tokens refer
  to each other, so the first argument bounds the depth of the call stack: \<open>None\<close> is a
  run that exceeds it. \<open>tag_children\<close> is the \<^verbatim>\<open>for\<close> loop over \<^verbatim>\<open>Object.values(node)\<close>
  and \<open>tag_each\<close> is \<^verbatim>\<open>child.forEach(tag)\<close>; both run in the frame of the enclosing call.
  A reference always denotes an object in JavaScript; the model leaves the map unchanged
  at an address outside the store.
\<close>

fun tag :: "nat \<Rightarrow> val \<Rightarrow> store \<Rightarrow> store option"
  and tag_each :: "nat \<Rightarrow> val list \<Rightarrow> store \<Rightarrow> store option"
  and tag_children :: "nat \<Rightarrow> val list \<Rightarrow> store \<Rightarrow> store option" where
  "tag 0 node s = None"
| "tag (Suc n) (Prim p) s = Some s"
| "tag (Suc n) (Ref a) s =
     (if has (tags s) a then Some s
      else
        (case lookup (nodes s) a of
           None \<Rightarrow> Some s
         | Some ob \<Rightarrow>
             if is_Token ob then tag n (own_property (obj_entries ob) ''value'') s
             else tag_children n (obj_values ob) (set_next a s)))"
| "tag_each n [] s = Some s"
| "tag_each n (e # es) s =
     (case tag n e s of None \<Rightarrow> None | Some s' \<Rightarrow> tag_each n es s')"
| "tag_children n [] s = Some s"
| "tag_children n (child # cs) s =
     (case (case array_elems (nodes s) child of
              Some es \<Rightarrow> tag_each n es s
            | None \<Rightarrow> tag n child s) of
        None \<Rightarrow> None
      | Some s' \<Rightarrow> tag_children n cs s')"

text \<open>
  The getter \<^verbatim>\<open>lexeme\<close> of a token: \<^verbatim>\<open>this.source.contents\<close>. The source is the node of
  the parser library; its \<^verbatim>\<open>contents\<close> is read as a property of the object.
\<close>

definition lexeme :: "heap \<Rightarrow> obj \<Rightarrow> exn + val" where
  "lexeme h ob = member h (own_property (obj_entries ob) ''source'') ''contents''"

text \<open>
  \<^verbatim>\<open>view\<close>, with the host's \<^verbatim>\<open>util.inspect\<close> as the parameter \<open>insp\<close>. \<open>view_each\<close> is
  \<^verbatim>\<open>e.map(view)\<close>; the template literal joins the resulting array with commas.
\<close>

fun view :: "(heap \<Rightarrow> val \<Rightarrow> string) \<Rightarrow> (val \<Rightarrow> string) \<Rightarrow> nat \<Rightarrow> store \<Rightarrow> val \<Rightarrow> (exn + string) option"
  and view_each :: "(heap \<Rightarrow> val \<Rightarrow> string) \<Rightarrow> (val \<Rightarrow> string) \<Rightarrow> nat \<Rightarrow> store \<Rightarrow> val list \<Rightarrow> (exn + string list) option" where
  "view insp str 0 s e = None"
| "view insp str (Suc n) s (Prim p) = Some (Inr (insp (nodes s) (Prim p)))"
| "view insp str (Suc n) s (Ref a) =
     (case map_of (tags s) a of
        Some i \<Rightarrow> Some (Inr (''#'' @ show_nat i))
      | None \<Rightarrow>
          (case lookup (nodes s) a of
             None \<Rightarrow> Some (Inr (insp (nodes s) (Ref a)))
           | Some ob \<Rightarrow>
               if is_Token ob then
                 (case lexeme (nodes s) ob of
                    Inl x \<Rightarrow> Some (Inl x)
                  | Inr l \<Rightarrow>
                      Some (Inr (''('' @ template str (own_property (obj_entries ob) ''category'')
                        @ '','' @ [CHR 0x22] @ template str l @ [CHR 0x22] @ '')'')))
               else
                 (case ob of
                    Array es \<Rightarrow>
                      (case view_each insp str n s es of
                         None \<Rightarrow> None
                       | Some (Inl x) \<Rightarrow> Some (Inl x)
                       | Some (Inr xs) \<Rightarrow> Some (Inr (''['' @ join '','' xs @ '']'')))
                  | Object c ps \<Rightarrow> Some (Inr (insp (nodes s) (Ref a))))))"
| "view_each insp str n s [] = Some (Inr [])"
| "view_each insp str n s (e # es) =
     (case view insp str n s e of
        None \<Rightarrow> None
      | Some (Inl x) \<Rightarrow> Some (Inl x)
      | Some (Inr y) \<Rightarrow>
          (case view_each insp str n s es of
             None \<Rightarrow> None
           | Some (Inl x) \<Rightarrow> Some (Inl x)
           | Some (Inr ys) \<Rightarrow> Some (Inr (y # ys))))"

text \<open>
  \<open>props\<close> is \<^verbatim>\<open>Object.entries(node).map(([k, v]) => `${k}=${view(v)}`)\<close> and \<open>line\<close> is
  the body of the \<^verbatim>\<open>for\<close> loop of the generator \<^verbatim>\<open>lines\<close>: one line for one entry of the
  map. The keys of the map are objects of the store; at a key outside the store, which no
  run produces, the model takes \<^verbatim>\<open>node.constructor\<close> to throw.
\<close>

fun props :: "(heap \<Rightarrow> val \<Rightarrow> string) \<Rightarrow> (val \<Rightarrow> string) \<Rightarrow> nat \<Rightarrow> store \<Rightarrow> (string \<times> val) list \<Rightarrow> (exn + string list) option" where
  "props insp str n s [] = Some (Inr [])"
| "props insp str n s ((k, v) # kvs) =
     (case view insp str n s v of
        None \<Rightarrow> None
      | Some (Inl x) \<Rightarrow> Some (Inl x)
      | Some (Inr y) \<Rightarrow>
          (case props insp str n s kvs of
             None \<Rightarrow> None
           | Some (Inl x) \<Rightarrow> Some (Inl x)
           | Some (Inr ys) \<Rightarrow> Some (Inr ((k @ ''='' @ y) # ys))))"

definition line :: "(heap \<Rightarrow> val \<Rightarrow> string) \<Rightarrow> (val \<Rightarrow> string) \<Rightarrow> nat \<Rightarrow> store \<Rightarrow> addr \<times> nat \<Rightarrow> (exn + string) option" where
  "line insp str n s entry =
     (case lookup (nodes s) (fst entry) of
        None \<Rightarrow> Some (Inl TypeError)
      | Some node \<Rightarrow>
          (case props insp str n s (obj_entries node) of
             None \<Rightarrow> None
           | Some (Inl x) \<Rightarrow> Some (Inl x)
           | Some (Inr ps) \<Rightarrow>
               Some (Inr (padStart 4 CHR '' '' (show_nat (snd entry)) @ '' | ''
                 @ constructor_name node @ '' '' @ join '' '' ps))))"

fun lines_of :: "(heap \<Rightarrow> val \<Rightarrow> string) \<Rightarrow> (val \<Rightarrow> string) \<Rightarrow> nat \<Rightarrow> store \<Rightarrow> (addr \<times> nat) list \<Rightarrow> (exn + string list) option" where
  "lines_of insp str n s [] = Some (Inr [])"
| "lines_of insp str n s (entry # entries) =
     (case line insp str n s entry of
        None \<Rightarrow> None
      | Some (Inl x) \<Rightarrow> Some (Inl x)
      | Some (Inr l) \<Rightarrow>
          (case lines_of insp str n s entries of
             None \<Rightarrow> None
           | Some (Inl x) \<Rightarrow> Some (Inl x)
           | Some (Inr ls) \<Rightarrow> Some (Inr (l # ls))))"

text \<open>The generator runs over the entries of the map sorted by their tag.\<close>

definition lines :: "(heap \<Rightarrow> val \<Rightarrow> string) \<Rightarrow> (val \<Rightarrow> string) \<Rightarrow> nat \<Rightarrow> store \<Rightarrow> (exn + string list) option" where
  "lines insp str n s = lines_of insp str n s (sort_key snd (tags s))"

text \<open>
  The method itself, called on the object at \<open>root\<close>: a fresh map, \<^verbatim>\<open>tag(this)\<close>, then the
  lines joined by newlines. It returns the string or what was thrown, and the store of
  the nodes as the run leaves it; the map is local to the call.
\<close>

definition serialize :: "(heap \<Rightarrow> val \<Rightarrow> string) \<Rightarrow> (val \<Rightarrow> string) \<Rightarrow> nat \<Rightarrow> heap \<Rightarrow> addr \<Rightarrow> ((exn + string) \<times> heap) option" where
  "serialize insp str n h root =
     (case tag n (Ref root) \<lparr>nodes = h, tags = []\<rparr> of
        None \<Rightarrow> None
      | Some s \<Rightarrow>
          (case lines insp str n s of
             None \<Rightarrow> None
           | Some (Inl x) \<Rightarrow> Some (Inl x, nodes s)
           | Some (Inr ls) \<Rightarrow> Some (Inr (join [CHR 0x0A] ls), nodes s)))"

section \<open>Notions used to state the properties\<close>

text \<open>
  The display name of a type: the string held by the property \<open>typename\<close> of an instance
  of \<open>Type\<close>.
\<close>

definition type_name :: "heap \<Rightarrow> val \<Rightarrow> string option" where
  "type_name h v =
     (if instanceof_Type h v then
        (case member h v ''typename'' of Inr (Prim (String s)) \<Rightarrow> Some s | _ \<Rightarrow> None)
      else None)"

text \<open>
  The theorems hold for every \<open>insp\<close> and \<open>str\<close>. The concrete examples use the following
  two, which behave like \<^verbatim>\<open>util.inspect\<close> and \<^verbatim>\<open>String\<close> on primitives whose text needs no
  escaping.
\<close>

definition inspect_sample :: "heap \<Rightarrow> val \<Rightarrow> string" where
  "inspect_sample h v =
     (case v of
        Prim Undefined \<Rightarrow> ''undefined''
      | Prim Null \<Rightarrow> ''null''
      | Prim (Boolean b) \<Rightarrow> (if b then ''true'' else ''false'')
      | Prim (Number i) \<Rightarrow> (if i < 0 then ''-'' else []) @ show_nat (nat \<bar>i\<bar>)
      | Prim (String s) \<Rightarrow> [CHR 0x27] @ s @ [CHR 0x27]
      | Ref a \<Rightarrow> ''[Object]'')"

definition str_sample :: "val \<Rightarrow> string" where
  "str_sample v =
     (case v of
        Prim Undefined \<Rightarrow> ''undefined''
      | Prim Null \<Rightarrow> ''null''
      | Prim (Boolean b) \<Rightarrow> (if b then ''true'' else ''false'')
      | Prim (Number i) \<Rightarrow> (if i < 0 then ''-'' else []) @ show_nat (nat \<bar>i\<bar>)
      | Prim (String s) \<Rightarrow> s
      | Ref a \<Rightarrow> ''[object Object]'')"

text \<open>
  The walk of \<^verbatim>\<open>tag\<close> seen as a walk of a graph. The successors of a token are its
  \<open>value\<close>; the successors of any other object are its property values in enumeration
  order, a property that holds an array contributing the elements of the array in index
  order instead of the array itself.
\<close>

definition flat :: "heap \<Rightarrow> val \<Rightarrow> val list" where
  "flat h child = (case array_elems h child of Some es \<Rightarrow> es | None \<Rightarrow> [child])"

definition succs :: "heap \<Rightarrow> obj \<Rightarrow> val list" where
  "succs h ob =
     (if is_Token ob then [own_property (obj_entries ob) ''value'']
      else concat (map (flat h) (obj_values ob)))"

definition edges :: "heap \<Rightarrow> (addr \<times> addr) set" where
  "edges h = {(a, b). \<exists>ob. lookup h a = Some ob \<and> Ref b \<in> set (succs h ob)}"

text \<open>The objects that can be tagged: every object of the store that is not a token.\<close>

definition is_node :: "heap \<Rightarrow> addr \<Rightarrow> bool" where
  "is_node h a = (case lookup h a of Some ob \<Rightarrow> \<not> is_Token ob | None \<Rightarrow> False)"

definition reachable_nodes :: "heap \<Rightarrow> addr \<Rightarrow> addr set" where
  "reachable_nodes h root = {a. (root, a) \<in> (edges h)\<^sup>* \<and> is_node h a}"

text \<open>
  Depth-first discovery as the specification words it: walk the successors in order,
  skip what has been seen, and append a node to the list of the nodes seen when it is
  first reached. The first argument bounds the depth, as for \<open>tag\<close>.
\<close>

fun dfs :: "nat \<Rightarrow> heap \<Rightarrow> val \<Rightarrow> addr list \<Rightarrow> addr list option"
  and dfs_list :: "nat \<Rightarrow> heap \<Rightarrow> val list \<Rightarrow> addr list \<Rightarrow> addr list option" where
  "dfs 0 h v seen = None"
| "dfs (Suc n) h (Prim p) seen = Some seen"
| "dfs (Suc n) h (Ref a) seen =
     (if a \<in> set seen then Some seen
      else
        (case lookup h a of
           None \<Rightarrow> Some seen
         | Some ob \<Rightarrow>
             dfs_list n h (succs h ob) (if is_Token ob then seen else seen @ [a])))"
| "dfs_list n h [] seen = Some seen"
| "dfs_list n h (v # vs) seen =
     (case dfs n h v seen of None \<Rightarrow> None | Some seen' \<Rightarrow> dfs_list n h vs seen')"

text \<open>Numbering a list of nodes from 1 in the order of the list.\<close>

definition number :: "addr list \<Rightarrow> (addr \<times> nat) list" where
  "number order = zip order [1..<Suc (length order)]"

text \<open>
  The value that a token refers to, and the test that the chain of token values that
  starts at a value leaves the tokens after at most \<open>k\<close> steps.
\<close>

definition token_value :: "heap \<Rightarrow> val \<Rightarrow> val option" where
  "token_value h v =
     (case v of
        Prim p \<Rightarrow> None
      | Ref a \<Rightarrow>
          (case lookup h a of
             None \<Rightarrow> None
           | Some ob \<Rightarrow> if is_Token ob then Some (own_property (obj_entries ob) ''value'') else None))"

fun chain_ends :: "nat \<Rightarrow> heap \<Rightarrow> val \<Rightarrow> bool" where
  "chain_ends 0 h v = (token_value h v = None)"
| "chain_ends (Suc k) h v =
     (case token_value h v of None \<Rightarrow> True | Some w \<Rightarrow> chain_ends k h w)"

text \<open>
  No cycle of tokens: from every object of the store the chain of token values ends
  within as many steps as the store has objects.
\<close>

definition tokens_end :: "heap \<Rightarrow> bool" where
  "tokens_end h = list_all (\<lambda>a. chain_ends (length h) h (Ref a)) [0..<length h]"

text \<open>
  A value is settled with respect to a list of tagged nodes when \<^verbatim>\<open>tag\<close> has nothing left
  to do for it: it is a primitive, or a tagged node, or a token whose value is settled.
\<close>

inductive settled :: "heap \<Rightarrow> addr list \<Rightarrow> val \<Rightarrow> bool" for h :: heap and r :: "addr list" where
  settled_Prim: "settled h r (Prim p)"
| settled_outside: "lookup h a = None \<Longrightarrow> settled h r (Ref a)"
| settled_seen: "a \<in> set r \<Longrightarrow> settled h r (Ref a)"
| settled_Token: "lookup h a = Some ob \<Longrightarrow> is_Token ob \<Longrightarrow>
    settled h r (own_property (obj_entries ob) ''value'') \<Longrightarrow> settled h r (Ref a)"

text \<open>The number of objects of the store that are not in a list of tagged nodes.\<close>

definition untagged :: "heap \<Rightarrow> addr list \<Rightarrow> nat" where
  "untagged h seen = card {a. a < length h \<and> a \<notin> set seen}"

subsection \<open>The text that the specification asks for\<close>

text \<open>
  Every token of the store has a source whose \<open>contents\<close> can be read (the source is
  neither \<^verbatim>\<open>undefined\<close> nor \<^verbatim>\<open>null\<close>), as the constructor of \<open>Token\<close> is meant to be
  called.
\<close>

definition lexemes_defined :: "heap \<Rightarrow> bool" where
  "lexemes_defined h = list_all (\<lambda>ob. is_Token ob \<longrightarrow> \<not> isl (lexeme h ob)) h"

text \<open>
  The rendering rules of the specification, written without recursion. A token is
  \<open>(category,"lexeme")\<close>. A value that stands alone or as an element of a sequence is \<open>#\<close>
  and its tag when it is tagged, the text of a token when it is a token, and the host's
  generic text otherwise. A property value that is an untagged sequence is the bracketed,
  comma-separated list of its elements. A line is the tag padded to four characters, the
  name of the class and the properties as \<open>key=value\<close>; the output is one line for each
  entry of the map, in the order of the tags.
\<close>

definition token_text :: "(val \<Rightarrow> string) \<Rightarrow> heap \<Rightarrow> obj \<Rightarrow> string" where
  "token_text str h ob =
     ''('' @ template str (own_property (obj_entries ob) ''category'') @ '','' @ [CHR 0x22]
     @ (case lexeme h ob of Inr l \<Rightarrow> template str l | Inl x \<Rightarrow> [])
     @ [CHR 0x22] @ '')''"

definition render1 :: "(heap \<Rightarrow> val \<Rightarrow> string) \<Rightarrow> (val \<Rightarrow> string) \<Rightarrow> heap \<Rightarrow> (addr \<times> nat) list \<Rightarrow> val \<Rightarrow> string" where
  "render1 insp str h t v =
     (case v of
        Prim p \<Rightarrow> insp h v
      | Ref a \<Rightarrow>
          (case map_of t a of
             Some i \<Rightarrow> ''#'' @ show_nat i
           | None \<Rightarrow>
               (case lookup h a of
                  None \<Rightarrow> insp h v
                | Some ob \<Rightarrow> if is_Token ob then token_text str h ob else insp h v)))"

definition render :: "(heap \<Rightarrow> val \<Rightarrow> string) \<Rightarrow> (val \<Rightarrow> string) \<Rightarrow> heap \<Rightarrow> (addr \<times> nat) list \<Rightarrow> val \<Rightarrow> string" where
  "render insp str h t v =
     (case v of
        Prim p \<Rightarrow> render1 insp str h t v
      | Ref a \<Rightarrow>
          (case array_elems h v of
             None \<Rightarrow> render1 insp str h t v
           | Some es \<Rightarrow>
               if has t a then render1 insp str h t v
               else ''['' @ join '','' (map (render1 insp str h t) es) @ '']''))"

definition expected_props :: "(heap \<Rightarrow> val \<Rightarrow> string) \<Rightarrow> (val \<Rightarrow> string) \<Rightarrow> heap \<Rightarrow> (addr \<times> nat) list \<Rightarrow> obj \<Rightarrow> string list" where
  "expected_props insp str h t ob =
     map (\<lambda>kv. fst kv @ ''='' @ render insp str h t (snd kv)) (obj_entries ob)"

definition expected_line :: "(heap \<Rightarrow> val \<Rightarrow> string) \<Rightarrow> (val \<Rightarrow> string) \<Rightarrow> heap \<Rightarrow> (addr \<times> nat) list \<Rightarrow> addr \<times> nat \<Rightarrow> string" where
  "expected_line insp str h t entry =
     (case lookup h (fst entry) of
        None \<Rightarrow> []
      | Some ob \<Rightarrow>
          padStart 4 CHR '' '' (show_nat (snd entry)) @ '' | '' @ constructor_name ob @ '' ''
          @ join '' '' (expected_props insp str h t ob))"

definition expected_output :: "(heap \<Rightarrow> val \<Rightarrow> string) \<Rightarrow> (val \<Rightarrow> string) \<Rightarrow> heap \<Rightarrow> addr list \<Rightarrow> string" where
  "expected_output insp str h order =
     join [CHR 0x0A] (map (expected_line insp str h (number order)) (number order))"

subsection \<open>The reachable structure of a graph\<close>

text \<open>
  The objects that the root leads to through property values and array elements of any
  kind, a token's source included: everything the serializer can come to read.
\<close>

definition refs :: "heap \<Rightarrow> (addr \<times> addr) set" where
  "refs h = {(a, b). \<exists>ob. lookup h a = Some ob \<and> Ref b \<in> set (obj_values ob)}"

definition reachable_structure :: "heap \<Rightarrow> addr \<Rightarrow> addr set" where
  "reachable_structure h root = {a. (root, a) \<in> (refs h)\<^sup>*}"

definition in_structure :: "addr set \<Rightarrow> val \<Rightarrow> bool" where
  "in_structure F v = (case v of Prim p \<Rightarrow> True | Ref a \<Rightarrow> a \<in> F)"

text \<open>
  Moving the objects of a graph to other addresses: \<open>rename_val\<close> and \<open>rename_obj\<close> replace
  every address \<open>a\<close> by \<open>f a\<close>. The store \<open>h'\<close> holds the same structure as \<open>h\<close> from \<open>root\<close> on
  when every object of the reachable structure of \<open>h\<close> is found, renamed, at its new
  address in \<open>h'\<close>, distinct objects at distinct addresses. Nothing is asked of the rest of
  the two stores.
\<close>

definition rename_val :: "(addr \<Rightarrow> addr) \<Rightarrow> val \<Rightarrow> val" where
  "rename_val f v = (case v of Prim p \<Rightarrow> Prim p | Ref a \<Rightarrow> Ref (f a))"

definition rename_obj :: "(addr \<Rightarrow> addr) \<Rightarrow> obj \<Rightarrow> obj" where
  "rename_obj f ob =
     (case ob of
        Object c ps \<Rightarrow> Object c (map (\<lambda>kv. (fst kv, rename_val f (snd kv))) ps)
      | Array es \<Rightarrow> Array (map (rename_val f) es))"

definition same_structure :: "(addr \<Rightarrow> addr) \<Rightarrow> heap \<Rightarrow> addr \<Rightarrow> heap \<Rightarrow> bool" where
  "same_structure f h root h' =
     (inj_on f (reachable_structure h root) \<and>
      (\<forall>a\<in>reachable_structure h root. lookup h' (f a) = map_option (rename_obj f) (lookup h a)))"

text \<open>
  The host's functions print corresponding values of the two stores alike (a primitive
  does not depend on the store at all).
\<close>

definition host_agrees :: "(heap \<Rightarrow> val \<Rightarrow> string) \<Rightarrow> (val \<Rightarrow> string) \<Rightarrow> (addr \<Rightarrow> addr) \<Rightarrow> heap \<Rightarrow> addr \<Rightarrow> heap \<Rightarrow> bool" where
  "host_agrees insp str f h root h' =
     (\<forall>v. in_structure (reachable_structure h root) v \<longrightarrow>
        insp h' (rename_val f v) = insp h v \<and> str (rename_val f v) = str v)"

text \<open>Every reference of the store denotes an object of the store.\<close>

definition closed_heap :: "heap \<Rightarrow> bool" where
  "closed_heap h =
     list_all (\<lambda>ob. list_all (\<lambda>v. case v of Prim p \<Rightarrow> True | Ref b \<Rightarrow> b < length h) (obj_values ob)) h"

subsection \<open>Example graphs\<close>

text \<open>
  A graph with a cycle, a shared node and a resolved token: \<open>A\<close> and \<open>B\<close> refer to each
  other, the program lists \<open>A\<close> twice, the token of \<open>A\<close> has the variable as its value, and
  the array of \<open>B\<close> contains itself and the array of the statements.
\<close>

definition cyclic_heap :: heap where
  "cyclic_heap =
     [Object ''Program'' [(''statements'', Ref 1)],
      Array [Ref 2, Ref 3, Ref 2],
      Object ''A'' [(''b'', Ref 3), (''t'', Ref 4)],
      Object ''B'' [(''a'', Ref 2), (''xs'', Ref 5)],
      Object ''Token'' [(''category'', Prim (String ''id'')), (''source'', Ref 6), (''value'', Ref 7)],
      Array [Ref 5, Ref 1, Prim Null],
      Object ''Node'' [(''contents'', Prim (String ''foo''))],
      Object ''Variable'' [(''name'', Prim (String ''foo''))]]"

text \<open>A program whose only statement is a token that is its own value.\<close>

definition token_loop_heap :: heap where
  "token_loop_heap =
     [Object ''Program'' [(''statements'', Ref 1)],
      Array [Ref 2],
      Object ''Token'' [(''category'', Prim (String ''id'')), (''source'', Ref 3), (''value'', Ref 2)],
      Object ''Node'' [(''contents'', Prim (String ''x''))]]"

text \<open>
  \<^verbatim>\<open>new Program([new VariableDeclaration(Type.INT, new Variable("x"), numberToken)])\<close> with
  \<^verbatim>\<open>numberToken = new Token("number", source)\<close>, the contents of \<open>source\<close> being \<open>5\<close>. The
  result is the address of the program and the store.
\<close>

definition example_program :: "addr \<times> heap" where
  "example_program =
     (case alloc (Object ''Node'' [(''contents'', Prim (String ''5''))]) static_heap of
        (source, h1) \<Rightarrow>
     (case new_Token (Prim (String ''number'')) (Ref source) h1 of
        (numberToken, h2) \<Rightarrow>
     (case new_Variable (Prim (String ''x'')) h2 of
        (x, h3) \<Rightarrow>
     (case new_VariableDeclaration Type_INT (Ref x) (Ref numberToken) h3 of
        (decl, h4) \<Rightarrow>
     (case new_Array [Ref decl] h4 of
        (statements, h5) \<Rightarrow>
     new_Program (Ref statements) h5)))))"

text \<open>
  A program with a token that is its own value, followed by an assignment whose target and
  source are one and the same variable and whose operator is a leaf token without a value.
\<close>

definition loop_heap :: heap where
  "loop_heap =
     [Object ''Program'' [(''statements'', Ref 1)],
      Array [Ref 2, Ref 3],
      Object ''Token'' [(''category'', Prim (String ''id'')), (''source'', Ref 6), (''value'', Ref 2)],
      Object ''Assignment'' [(''target'', Ref 4), (''source'', Ref 4), (''op'', Ref 5)],
      Object ''Variable'' [(''name'', Prim (String ''x''))],
      Object ''Token'' [(''category'', Prim (String ''number'')), (''source'', Ref 7)],
      Object ''Node'' [(''contents'', Prim (String ''y''))],
      Object ''Node'' [(''contents'', Prim (String ''5''))]]"

text \<open>The same assignment, with a further token that was constructed without a source.\<close>

definition sourceless_heap :: heap where
  "sourceless_heap =
     [Object ''Program'' [(''statements'', Ref 1)],
      Array [Ref 2],
      Object ''Assignment''
        [(''target'', Ref 3), (''source'', Ref 3), (''op'', Ref 4), (''note'', Ref 5)],
      Object ''Variable'' [(''name'', Prim (String ''x''))],
      Object ''Token'' [(''category'', Prim (String ''number'')), (''source'', Ref 6)],
      Object ''Token'' [(''category'', Prim (String ''id''))],
      Object ''Node'' [(''contents'', Prim (String ''5''))]]"

text \<open>
  The graph of \<open>cyclic_heap\<close> in another place: the object at the address \<open>a\<close> has moved to
  the address \<open>8 - a\<close>, and an object that nothing refers to sits at the address 0.
\<close>

definition moved_heap :: heap where
  "moved_heap =
     [Object ''Unrelated'' [(''x'', Ref 8)],
      Object ''Variable'' [(''name'', Prim (String ''foo''))],
      Object ''Node'' [(''contents'', Prim (String ''foo''))],
      Array [Ref 3, Ref 7, Prim Null],
      Object ''Token'' [(''category'', Prim (String ''id'')), (''source'', Ref 2), (''value'', Ref 1)],
      Object ''B'' [(''a'', Ref 6), (''xs'', Ref 3)],
      Object ''A'' [(''b'', Ref 5), (''t'', Ref 4)],
      Array [Ref 6, Ref 5, Ref 6],
      Object ''Program'' [(''statements'', Ref 7)]]"

section \<open>Construction and errors\<close>

lemma lookup_alloc_new: "lookup (h @ [ob]) (length h) = Some ob"
  by (simp add: lookup_def)

lemma type_nameD:
  assumes "type_name h v = Some n"
  shows "instanceof_Type h v" and "member h v ''typename'' = Inr (Prim (String n))"
  using assms
  by (auto simp: type_name_def split: if_splits sum.splits val.splits prim.splits)

lemma typenames_names:
  "map (type_name h) ts = map Some ns \<Longrightarrow> typenames h ts = Inr (map (\<lambda>n. Prim (String n)) ns)"
proof (induction ts arbitrary: ns)
  case Nil
  then show ?case by simp
next
  case (Cons t ts)
  then obtain n ns' where ns: "ns = n # ns'" "type_name h t = Some n"
    "map (type_name h) ts = map Some ns'"
    by (cases ns) auto
  with Cons.IH [of ns'] show ?case
    by (simp add: type_nameD(2))
qed

lemma join_elem_String: "map (join_elem str \<circ> (\<lambda>n. Prim (String n))) ns = ns"
  by (induction ns) (simp_all add: join_elem_def template_def)

lemma new_ArrayType_name:
  assumes "type_name h t = Some n"
  shows "\<exists>a h'. new_ArrayType str t h = Inr (a, h') \<and>
    type_name h' (Ref a) = Some (''['' @ n @ '']'')"
  using type_nameD [OF assms]
  by (simp add: new_ArrayType_def alloc_def template_def type_name_def instanceof_Type_def
      lookup_alloc_new member_def own_property_def Type_classes_def)

lemma new_FunctionType_name:
  assumes "lookup h pa = Some (Array ts)" and "map (type_name h) ts = map Some ns"
    and "type_name h r = Some rn"
  shows "\<exists>a h'. new_FunctionType str (Ref pa) r h = Inr (a, h') \<and>
     type_name h' (Ref a) = Some (''('' @ join '','' ns @ '')->'' @ rn)"
  using assms(1) typenames_names [OF assms(2)] type_nameD [OF assms(3)]
  by (simp add: new_FunctionType_def alloc_def template_def type_name_def instanceof_Type_def
      lookup_alloc_new member_def own_property_def Type_classes_def join_elem_String)

lemma type_name_INT: "type_name static_heap Type_INT = Some ''pog''"
  by (simp add: type_name_def instanceof_Type_def lookup_def static_heap_def Type_INT_def
      member_def own_property_def Type_classes_def)

lemma ArrayType_INT_name:
  "\<exists>a h'. new_ArrayType str Type_INT static_heap = Inr (a, h') \<and>
     type_name h' (Ref a) = Some ''[pog]''"
  using new_ArrayType_name [OF type_name_INT] by simp

lemma FunctionType_example_name:
  "case new_Array [Type_INT, Type_STRING] static_heap of
     (pa, h1) \<Rightarrow>
       \<exists>a h'. new_FunctionType str (Ref pa) Type_BOOLEAN h1 = Inr (a, h') \<and>
         type_name h' (Ref a) = Some ''(pog,manyCars)->boolin''"
  by (simp add: new_Array_def new_FunctionType_def alloc_def template_def type_name_def
      instanceof_Type_def lookup_def member_def own_property_def Type_classes_def join_elem_def
      static_heap_def Type_INT_def Type_STRING_def Type_BOOLEAN_def)

text \<open>
  Claim C6. For a type \<open>t\<close> with display name \<open>n\<close>, \<^verbatim>\<open>new ArrayType(t)\<close> succeeds and the
  display name of the new type is \<open>[n]\<close>. For an array of types with display names \<open>ns\<close>
  and a return type with display name \<open>rn\<close>, \<^verbatim>\<open>new FunctionType(paramTypes, returnType)\<close>
  succeeds and the display name of the new type is \<open>(\<close>, the names \<open>ns\<close> joined by commas,
  \<open>)->\<close>, \<open>rn\<close>. In particular \<^verbatim>\<open>ArrayType(INT)\<close> is named \<open>[pog]\<close> and
  \<^verbatim>\<open>FunctionType([INT, STRING], BOOLEAN)\<close> is named \<open>(pog,manyCars)->boolin\<close>.
\<close>

theorem type_name_derivation:
  "(type_name h t = Some n \<longrightarrow>
      (\<exists>a h'. new_ArrayType str t h = Inr (a, h') \<and>
         type_name h' (Ref a) = Some (''['' @ n @ '']''))) \<and>
   (lookup h pa = Some (Array ts) \<and> map (type_name h) ts = map Some ns \<and>
    type_name h r = Some rn \<longrightarrow>
      (\<exists>a h'. new_FunctionType str (Ref pa) r h = Inr (a, h') \<and>
         type_name h' (Ref a) = Some (''('' @ join '','' ns @ '')->'' @ rn))) \<and>
   (\<exists>a h'. new_ArrayType str Type_INT static_heap = Inr (a, h') \<and>
      type_name h' (Ref a) = Some ''[pog]'') \<and>
   (case new_Array [Type_INT, Type_STRING] static_heap of
      (pa, h1) \<Rightarrow>
        \<exists>a h'. new_FunctionType str (Ref pa) Type_BOOLEAN h1 = Inr (a, h') \<and>
          type_name h' (Ref a) = Some ''(pog,manyCars)->boolin'')"
  using new_ArrayType_name [of h t n str] new_FunctionType_name [of h pa ts ns r rn str]
    ArrayType_INT_name [of str] FunctionType_example_name [of str]
  by blast

theorem type_name_derivation_witness:
  "type_name (static_heap @ [Array [Type_INT, Type_STRING]]) Type_INT = Some ''pog'' \<and>
   (\<exists>a h'. new_ArrayType str_sample Type_INT
        (static_heap @ [Array [Type_INT, Type_STRING]]) = Inr (a, h') \<and>
      type_name h' (Ref a) = Some ''[pog]'') \<and>
   lookup (static_heap @ [Array [Type_INT, Type_STRING]]) 5 =
     Some (Array [Type_INT, Type_STRING]) \<and>
   (\<exists>a h'. new_FunctionType str_sample (Ref 5) Type_BOOLEAN
        (static_heap @ [Array [Type_INT, Type_STRING]]) = Inr (a, h') \<and>
      type_name h' (Ref a) = Some ''(pog,manyCars)->boolin'')"
proof -
  let ?h = "static_heap @ [Array [Type_INT, Type_STRING]]"
  have 1: "type_name ?h Type_INT = Some ''pog''"
    by (simp add: type_name_def instanceof_Type_def lookup_def static_heap_def Type_INT_def
        member_def own_property_def Type_classes_def)
  have 2: "lookup ?h 5 = Some (Array [Type_INT, Type_STRING])"
    by (simp add: lookup_def static_heap_def)
  have 3: "map (type_name ?h) [Type_INT, Type_STRING] = map Some [''pog'', ''manyCars'']"
    by (simp add: type_name_def instanceof_Type_def lookup_def static_heap_def Type_INT_def
        Type_STRING_def member_def own_property_def Type_classes_def)
  have 4: "type_name ?h Type_BOOLEAN = Some ''boolin''"
    by (simp add: type_name_def instanceof_Type_def lookup_def static_heap_def
        Type_BOOLEAN_def member_def own_property_def Type_classes_def)
  from type_name_derivation [where h = ?h and t = Type_INT and n = "''pog''"
      and str = str_sample and pa = 5 and ts = "[Type_INT, Type_STRING]"
      and ns = "[''pog'', ''manyCars'']" and r = Type_BOOLEAN and rn = "''boolin''"] 1 2 3 4
  show ?thesis by simp
qed

text \<open>
  Claim C7. Constructing \<open>ArrayType\<close> with an argument that is not an instance of \<open>Type\<close>
  throws: no object is returned.
\<close>

theorem ArrayType_rejects_non_Type:
  "\<not> instanceof_Type h v \<Longrightarrow> new_ArrayType str v h = Inl ReferenceError"
  by (simp add: new_ArrayType_def)

theorem ArrayType_rejects_non_Type_witness:
  "\<not> instanceof_Type static_heap (Prim (Number 5)) \<and>
   new_ArrayType str_sample (Prim (Number 5)) static_heap = Inl ReferenceError"
  using ArrayType_rejects_non_Type [of static_heap "Prim (Number 5)" str_sample]
  by (simp add: instanceof_Type_def)

text \<open>
  Claim C10. For every message and every token argument, present or \<^verbatim>\<open>undefined\<close>,
  \<^verbatim>\<open>error(message, token)\<close> throws an \<^verbatim>\<open>Error\<close> that carries the message; it has no normal
  result.
\<close>

theorem error_throws_message:
  "error message token = Inl (Error message)"
  by (simp add: error_def)

section \<open>The discovery phase\<close>

text \<open>
  \<open>tag\<close> computes the depth-first discovery order and numbers it: started on a map that
  numbers a list \<open>seen\<close>, it fails exactly when \<open>dfs\<close> fails and otherwise leaves the
  store of the nodes as it was and the map numbering the list that \<open>dfs\<close> returns.
\<close>

lemma length_number [simp]: "length (number xs) = length xs"
  by (simp add: number_def del: upt_Suc)

lemma map_fst_number [simp]: "map fst (number xs) = xs"
  by (simp add: number_def del: upt_Suc)

lemma map_snd_number: "map snd (number xs) = [1..<Suc (length xs)]"
  by (simp add: number_def del: upt_Suc)

lemma number_snoc: "number xs @ [(a, length xs + 1)] = number (xs @ [a])"
proof -
  have "[1..<Suc (Suc (length xs))] = [1..<Suc (length xs)] @ [Suc (length xs)]"
    by simp
  then show ?thesis
    by (simp add: number_def del: upt_Suc)
qed

lemma has_number: "has (number xs) a \<longleftrightarrow> a \<in> set xs"
  by (simp add: has_def number_def map_of_zip_is_None del: upt_Suc)

lemma dfs_list_single: "dfs_list n h [v] seen = dfs n h v seen"
  by (simp split: option.splits)

lemma dfs_list_append:
  "dfs_list n h (xs @ ys) seen =
     (case dfs_list n h xs seen of None \<Rightarrow> None | Some seen' \<Rightarrow> dfs_list n h ys seen')"
  by (induction xs arbitrary: seen) (auto split: option.splits)

lemma tag_refines_dfs:
  "tags s = number seen \<Longrightarrow>
     tag n v s = map_option (\<lambda>out. s\<lparr>tags := number out\<rparr>) (dfs n (nodes s) v seen)"
  "tags s = number seen \<Longrightarrow>
     tag_each n es s = map_option (\<lambda>out. s\<lparr>tags := number out\<rparr>) (dfs_list n (nodes s) es seen)"
  "tags s = number seen \<Longrightarrow>
     tag_children n cs s =
       map_option (\<lambda>out. s\<lparr>tags := number out\<rparr>)
         (dfs_list n (nodes s) (concat (map (flat (nodes s)) cs)) seen)"
proof (induction n v s and n es s and n cs s arbitrary: seen and seen and seen
    rule: tag_tag_each_tag_children.induct)
  case (1 node s)
  then show ?case by simp
next
  case (2 n p s)
  then show ?case by simp
next
  case (3 n a s)
  show ?case
  proof (cases "a \<in> set seen")
    case True
    with 3(3) show ?thesis by (simp add: has_number)
  next
    case False
    note unseen = this
    show ?thesis
    proof (cases "lookup (nodes s) a")
      case None
      with unseen 3(3) show ?thesis by (simp add: has_number)
    next
      case (Some ob)
      show ?thesis
      proof (cases "is_Token ob")
        case True
        from 3(1) [of ob seen] unseen Some True 3(3)
        show ?thesis by (simp add: has_number succs_def dfs_list_single del: dfs_list.simps)
      next
        case False
        have t: "tags (set_next a s) = number (seen @ [a])"
          using 3(3) by (simp add: set_next_def number_snoc [symmetric])
        from 3(2) [of ob "seen @ [a]"] unseen Some False 3(3) t
        show ?thesis by (simp add: has_number succs_def set_next_def)
      qed
    qed
  qed
next
  case (4 n s)
  then show ?case by simp
next
  case (5 n e es s)
  show ?case
  proof (cases "dfs n (nodes s) e seen")
    case None
    with 5(1) [of seen] 5(3) show ?thesis by simp
  next
    case (Some out)
    with 5(1) [of seen] 5(3) have "tag n e s = Some (s\<lparr>tags := number out\<rparr>)" by simp
    with 5(2) [of "s\<lparr>tags := number out\<rparr>" out] Some show ?thesis by simp
  qed
next
  case (6 n s)
  then show ?case by simp
next
  case (7 n child cs s)
  let ?first = "case array_elems (nodes s) child of Some es \<Rightarrow> tag_each n es s | None \<Rightarrow> tag n child s"
  have first: "?first = map_option (\<lambda>out. s\<lparr>tags := number out\<rparr>)
      (dfs_list n (nodes s) (flat (nodes s) child) seen)"
  proof (cases "array_elems (nodes s) child")
    case None
    with 7(1) [OF None 7(4)] show ?thesis
      by (simp add: flat_def split: option.splits)
  next
    case (Some es)
    with 7(2) [OF Some 7(4)] show ?thesis
      by (simp add: flat_def)
  qed
  show ?case
  proof (cases "dfs_list n (nodes s) (flat (nodes s) child) seen")
    case None
    with first show ?thesis by (simp add: dfs_list_append)
  next
    case (Some out)
    with first have f: "?first = Some (s\<lparr>tags := number out\<rparr>)" by simp
    from 7(3) [OF f, of out] f Some show ?thesis
      by (simp add: dfs_list_append)
  qed
qed

lemma dfs_mono:
  "dfs n h v seen = Some r \<Longrightarrow> n \<le> m \<Longrightarrow> dfs m h v seen = Some r"
  "dfs_list n h vs seen = Some r \<Longrightarrow> n \<le> m \<Longrightarrow> dfs_list m h vs seen = Some r"
proof (induction n h v seen and n h vs seen arbitrary: r m and r m rule: dfs_dfs_list.induct)
  case (1 h v seen)
  then show ?case by simp
next
  case (2 n h p seen)
  then obtain m' where "m = Suc m'" by (cases m) auto
  with 2 show ?case by simp
next
  case (3 n h a seen)
  from 3(3) obtain m' where m: "m = Suc m'" "n \<le> m'" by (cases m) auto
  show ?case
  proof (cases "a \<in> set seen \<or> lookup h a = None")
    case True
    with 3(2) m show ?thesis by auto
  next
    case False
    then obtain ob where ob: "a \<notin> set seen" "lookup h a = Some ob" by auto
    with 3(2) have "dfs_list n h (succs h ob) (if is_Token ob then seen else seen @ [a]) = Some r"
      by simp
    from 3(1) [OF ob this m(2)] ob m show ?thesis by simp
  qed
next
  case (4 n h seen)
  then show ?case by simp
next
  case (5 n h v vs seen)
  from 5(3) obtain r1 where r1: "dfs n h v seen = Some r1" "dfs_list n h vs r1 = Some r"
    by (auto split: option.splits)
  from 5(1) [OF r1(1) 5(4)] 5(2) [OF r1 5(4)] show ?case by simp
qed

lemma dfs_extends:
  "dfs n h v seen = Some r \<Longrightarrow>
     \<exists>new. r = seen @ new \<and> (distinct seen \<longrightarrow> distinct r) \<and> (\<forall>a\<in>set new. is_node h a)"
  "dfs_list n h vs seen = Some r \<Longrightarrow>
     \<exists>new. r = seen @ new \<and> (distinct seen \<longrightarrow> distinct r) \<and> (\<forall>a\<in>set new. is_node h a)"
proof (induction n h v seen and n h vs seen arbitrary: r and r rule: dfs_dfs_list.induct)
  case (1 h v seen)
  then show ?case by simp
next
  case (2 n h p seen)
  then show ?case by simp
next
  case (3 n h a seen)
  show ?case
  proof (cases "a \<in> set seen \<or> lookup h a = None")
    case True
    with 3(2) show ?thesis by (auto split: if_splits)
  next
    case False
    then obtain ob where ob: "a \<notin> set seen" "lookup h a = Some ob" by auto
    with 3(2) have run: "dfs_list n h (succs h ob) (if is_Token ob then seen else seen @ [a]) = Some r"
      by simp
    from 3(1) [OF ob run] obtain new where new:
      "r = (if is_Token ob then seen else seen @ [a]) @ new"
      "distinct (if is_Token ob then seen else seen @ [a]) \<longrightarrow> distinct r"
      "\<forall>b\<in>set new. is_node h b"
      by blast
    show ?thesis
    proof (cases "is_Token ob")
      case True
      with new show ?thesis by auto
    next
      case False
      with new ob have "r = seen @ (a # new)" "distinct seen \<longrightarrow> distinct r"
        "\<forall>b\<in>set (a # new). is_node h b"
        by (auto simp: is_node_def)
      then show ?thesis by blast
    qed
  qed
next
  case (4 n h seen)
  then show ?case by simp
next
  case (5 n h v vs seen)
  from 5(3) obtain r1 where r1: "dfs n h v seen = Some r1" "dfs_list n h vs r1 = Some r"
    by (auto split: option.splits)
  from 5(1) [OF r1(1)] obtain new1 where new1: "r1 = seen @ new1"
    "distinct seen \<longrightarrow> distinct r1" "\<forall>a\<in>set new1. is_node h a"
    by blast
  from 5(2) [OF r1] obtain new2 where new2: "r = r1 @ new2"
    "distinct r1 \<longrightarrow> distinct r" "\<forall>a\<in>set new2. is_node h a"
    by blast
  from new1 new2 have "r = seen @ (new1 @ new2)" "distinct seen \<longrightarrow> distinct r"
    "\<forall>a\<in>set (new1 @ new2). is_node h a"
    by auto
  then show ?case by blast
qed

lemma dfs_subset:
  "dfs n h v seen = Some r \<Longrightarrow> set seen \<subseteq> set r"
  "dfs_list n h vs seen = Some r \<Longrightarrow> set seen \<subseteq> set r"
  using dfs_extends(1) [of n h v seen r] dfs_extends(2) [of n h vs seen r] by auto

lemma settled_mono: "settled h r v \<Longrightarrow> set r \<subseteq> set r' \<Longrightarrow> settled h r' v"
  by (induction rule: settled.induct) (auto intro: settled.intros)

lemma dfs_settles:
  "dfs n h v seen = Some r \<Longrightarrow>
     settled h r v \<and>
     (\<forall>a\<in>set r - set seen. \<forall>ob. lookup h a = Some ob \<longrightarrow> (\<forall>w\<in>set (succs h ob). settled h r w))"
  "dfs_list n h vs seen = Some r \<Longrightarrow>
     (\<forall>v\<in>set vs. settled h r v) \<and>
     (\<forall>a\<in>set r - set seen. \<forall>ob. lookup h a = Some ob \<longrightarrow> (\<forall>w\<in>set (succs h ob). settled h r w))"
proof (induction n h v seen and n h vs seen arbitrary: r and r rule: dfs_dfs_list.induct)
  case (1 h v seen)
  then show ?case by simp
next
  case (2 n h p seen)
  then show ?case by (simp add: settled_Prim)
next
  case (3 n h a seen)
  show ?case
  proof (cases "a \<in> set seen \<or> lookup h a = None")
    case True
    with 3(2) show ?thesis by (auto intro: settled.intros split: if_splits)
  next
    case False
    then obtain ob where ob: "a \<notin> set seen" "lookup h a = Some ob" by auto
    with 3(2) have run: "dfs_list n h (succs h ob) (if is_Token ob then seen else seen @ [a]) = Some r"
      by simp
    note ih = 3(1) [OF ob run]
    show ?thesis
    proof (cases "is_Token ob")
      case True
      with ih have "settled h r (own_property (obj_entries ob) ''value'')"
        by (simp add: succs_def)
      with ob True have "settled h r (Ref a)"
        by (auto intro: settled_Token)
      with ih True show ?thesis by simp
    next
      case False
      from dfs_subset(2) [OF run] False have a: "a \<in> set r" by simp
      then have "settled h r (Ref a)" by (rule settled_seen)
      moreover have "\<forall>b\<in>set r - set seen. \<forall>ob. lookup h b = Some ob \<longrightarrow>
          (\<forall>w\<in>set (succs h ob). settled h r w)"
      proof (intro ballI allI impI)
        fix b ob' w
        assume b: "b \<in> set r - set seen" "lookup h b = Some ob'" "w \<in> set (succs h ob')"
        show "settled h r w"
        proof (cases "b = a")
          case True
          with b ob ih show ?thesis by simp
        next
          case False
          with b \<open>\<not> is_Token ob\<close> ih show ?thesis by auto
        qed
      qed
      ultimately show ?thesis by simp
    qed
  qed
next
  case (4 n h seen)
  then show ?case by simp
next
  case (5 n h v vs seen)
  from 5(3) obtain r1 where r1: "dfs n h v seen = Some r1" "dfs_list n h vs r1 = Some r"
    by (auto split: option.splits)
  note ih1 = 5(1) [OF r1(1)] and ih2 = 5(2) [OF r1]
  note sub = dfs_subset(2) [OF r1(2)]
  have "settled h r v"
    using ih1 sub by (auto intro: settled_mono)
  moreover have "\<forall>b\<in>set r - set seen. \<forall>ob. lookup h b = Some ob \<longrightarrow>
      (\<forall>w\<in>set (succs h ob). settled h r w)"
  proof (intro ballI allI impI)
    fix b ob w
    assume b: "b \<in> set r - set seen" "lookup h b = Some ob" "w \<in> set (succs h ob)"
    show "settled h r w"
    proof (cases "b \<in> set r1")
      case True
      with b ih1 have "settled h r1 w" by auto
      then show ?thesis using sub by (rule settled_mono)
    next
      case False
      with b ih2 show ?thesis by auto
    qed
  qed
  ultimately show ?case using ih2 by simp
qed

lemma dfs_sound:
  "dfs n h v seen = Some r \<Longrightarrow>
     \<forall>b\<in>set r - set seen. \<exists>a. v = Ref a \<and> (a, b) \<in> (edges h)\<^sup>*"
  "dfs_list n h vs seen = Some r \<Longrightarrow>
     \<forall>b\<in>set r - set seen. \<exists>a. Ref a \<in> set vs \<and> (a, b) \<in> (edges h)\<^sup>*"
proof (induction n h v seen and n h vs seen arbitrary: r and r rule: dfs_dfs_list.induct)
  case (1 h v seen)
  then show ?case by simp
next
  case (2 n h p seen)
  then show ?case by simp
next
  case (3 n h a seen)
  show ?case
  proof (cases "a \<in> set seen \<or> lookup h a = None")
    case True
    with 3(2) show ?thesis by (auto split: if_splits)
  next
    case False
    then obtain ob where ob: "a \<notin> set seen" "lookup h a = Some ob" by auto
    with 3(2) have run: "dfs_list n h (succs h ob) (if is_Token ob then seen else seen @ [a]) = Some r"
      by simp
    note ih = 3(1) [OF ob run]
    show ?thesis
    proof
      fix b
      assume b: "b \<in> set r - set seen"
      show "\<exists>a'. Ref a = Ref a' \<and> (a', b) \<in> (edges h)\<^sup>*"
      proof (cases "b = a")
        case True
        then show ?thesis by simp
      next
        case False
        with b have "b \<in> set r - set (if is_Token ob then seen else seen @ [a])" by simp
        with ih obtain c where c: "Ref c \<in> set (succs h ob)" "(c, b) \<in> (edges h)\<^sup>*"
          by blast
        from c(1) ob have "(a, c) \<in> edges h" by (auto simp: edges_def)
        from this c(2) have "(a, b) \<in> (edges h)\<^sup>*" by (rule converse_rtrancl_into_rtrancl)
        then show ?thesis by simp
      qed
    qed
  qed
next
  case (4 n h seen)
  then show ?case by simp
next
  case (5 n h v vs seen)
  from 5(3) obtain r1 where r1: "dfs n h v seen = Some r1" "dfs_list n h vs r1 = Some r"
    by (auto split: option.splits)
  note ih1 = 5(1) [OF r1(1)] and ih2 = 5(2) [OF r1]
  show ?case
  proof
    fix b
    assume b: "b \<in> set r - set seen"
    show "\<exists>a. Ref a \<in> set (v # vs) \<and> (a, b) \<in> (edges h)\<^sup>*"
    proof (cases "b \<in> set r1")
      case True
      with b ih1 show ?thesis by auto
    next
      case False
      with b ih2 show ?thesis by auto
    qed
  qed
qed

lemma dfs_reaches_all:
  assumes run: "dfs n h (Ref root) [] = Some r"
    and reach: "(root, a) \<in> (edges h)\<^sup>*"
  shows "settled h r (Ref a)"
  using reach
proof (induction rule: rtrancl_induct)
  case base
  from dfs_settles(1) [OF run] show ?case by simp
next
  case (step b c)
  from step(2) obtain ob where ob: "lookup h b = Some ob" "Ref c \<in> set (succs h ob)"
    by (auto simp: edges_def)
  from step(3) ob dfs_settles(1) [OF run] show ?case
    by (cases rule: settled.cases) (auto simp: succs_def)
qed

lemma dfs_reachable_nodes:
  assumes run: "dfs n h (Ref root) [] = Some r"
  shows "set r = reachable_nodes h root" and "distinct r"
proof -
  from dfs_extends(1) [OF run] show "distinct r" by auto
  show "set r = reachable_nodes h root"
  proof (intro set_eqI iffI)
    fix a
    assume a: "a \<in> set r"
    with dfs_extends(1) [OF run] have "is_node h a" by auto
    moreover from dfs_sound(1) [OF run] a have "(root, a) \<in> (edges h)\<^sup>*" by auto
    ultimately show "a \<in> reachable_nodes h root" by (simp add: reachable_nodes_def)
  next
    fix a
    assume "a \<in> reachable_nodes h root"
    then have a: "(root, a) \<in> (edges h)\<^sup>*" "is_node h a"
      by (simp_all add: reachable_nodes_def)
    from dfs_reaches_all [OF run a(1)] a(2) show "a \<in> set r"
      by (cases rule: settled.cases) (auto simp: is_node_def)
  qed
qed

lemma untagged_mono: "set seen \<subseteq> set seen' \<Longrightarrow> untagged h seen' \<le> untagged h seen"
  unfolding untagged_def by (rule card_mono) auto

lemma untagged_snoc:
  assumes "a < length h" and "a \<notin> set seen"
  shows "untagged h (seen @ [a]) < untagged h seen"
  unfolding untagged_def
proof (rule psubset_card_mono)
  show "finite {b. b < length h \<and> b \<notin> set seen}" by simp
  show "{b. b < length h \<and> b \<notin> set (seen @ [a])} \<subset> {b. b < length h \<and> b \<notin> set seen}"
    using assms by auto
qed

lemma chain_ends_no_token: "token_value h v = None \<Longrightarrow> chain_ends k h v"
  by (cases k) simp_all

lemma tokens_end_chain:
  assumes "tokens_end h"
  shows "chain_ends (length h) h v"
proof (cases v)
  case (Prim p)
  then show ?thesis by (simp add: chain_ends_no_token token_value_def)
next
  case (Ref a)
  show ?thesis
  proof (cases "a < length h")
    case True
    with assms Ref show ?thesis by (simp add: tokens_end_def list_all_iff)
  next
    case False
    with Ref show ?thesis by (simp add: chain_ends_no_token token_value_def lookup_def)
  qed
qed

lemma dfs_list_total:
  assumes elems: "\<And>seen' v. untagged h seen' < k \<Longrightarrow> \<exists>n r. dfs n h v seen' = Some r"
  shows "untagged h seen < k \<Longrightarrow> \<exists>n r. dfs_list n h vs seen = Some r"
proof (induction vs arbitrary: seen)
  case Nil
  then show ?case by simp
next
  case (Cons v vs)
  from elems [OF Cons.prems] obtain n1 r1 where r1: "dfs n1 h v seen = Some r1" by blast
  from dfs_subset(1) [OF r1] have "untagged h r1 \<le> untagged h seen" by (rule untagged_mono)
  with Cons.prems have "untagged h r1 < k" by simp
  from Cons.IH [OF this] obtain n2 r where r: "dfs_list n2 h vs r1 = Some r" by blast
  from dfs_mono(1) [OF r1, of "max n1 n2"] dfs_mono(2) [OF r, of "max n1 n2"]
  have "dfs_list (max n1 n2) h (v # vs) seen = Some r" by simp
  then show ?case by blast
qed

lemma dfs_total_no_token:
  assumes smaller: "\<And>seen' v. untagged h seen' < untagged h seen \<Longrightarrow> \<exists>n r. dfs n h v seen' = Some r"
    and no_token: "token_value h v = None"
  shows "\<exists>n r. dfs n h v seen = Some r"
proof (cases v)
  case (Prim p)
  then have "dfs (Suc 0) h v seen = Some seen" by simp
  then show ?thesis by blast
next
  case (Ref a)
  show ?thesis
  proof (cases "a \<in> set seen \<or> lookup h a = None")
    case True
    with Ref have "dfs (Suc 0) h v seen = Some seen" by auto
    then show ?thesis by blast
  next
    case False
    then obtain ob where ob: "a \<notin> set seen" "lookup h a = Some ob" by auto
    with no_token Ref have node: "\<not> is_Token ob" by (auto simp: token_value_def)
    from ob have "a < length h" by (simp add: lookup_def split: if_splits)
    then have "untagged h (seen @ [a]) < untagged h seen" using ob(1) by (rule untagged_snoc)
    from dfs_list_total [of h "untagged h seen", OF smaller this]
    obtain n r where "dfs_list n h (succs h ob) (seen @ [a]) = Some r" by blast
    with Ref ob node have "dfs (Suc n) h v seen = Some r" by simp
    then show ?thesis by blast
  qed
qed

lemma dfs_total_chain:
  assumes smaller: "\<And>seen' v. untagged h seen' < untagged h seen \<Longrightarrow> \<exists>n r. dfs n h v seen' = Some r"
  shows "chain_ends j h v \<Longrightarrow> \<exists>n r. dfs n h v seen = Some r"
proof (induction j arbitrary: v)
  case 0
  then have "token_value h v = None" by simp
  with smaller show ?case by (rule dfs_total_no_token)
next
  case (Suc j)
  show ?case
  proof (cases "token_value h v")
    case None
    with smaller show ?thesis by (rule dfs_total_no_token)
  next
    case (Some w)
    with Suc.prems have "chain_ends j h w" by simp
    from Suc.IH [OF this] obtain n r where r: "dfs n h w seen = Some r" by blast
    from Some obtain a ob where a: "v = Ref a" "lookup h a = Some ob" "is_Token ob"
      "w = own_property (obj_entries ob) ''value''"
      by (auto simp: token_value_def split: val.splits option.splits if_splits)
    show ?thesis
    proof (cases "a \<in> set seen")
      case True
      with a have "dfs (Suc 0) h v seen = Some seen" by simp
      then show ?thesis by blast
    next
      case False
      with a r have "dfs (Suc n) h v seen = Some r"
        by (simp add: succs_def dfs_list_single del: dfs_list.simps)
      then show ?thesis by blast
    qed
  qed
qed

lemma dfs_total:
  assumes "tokens_end h"
  shows "\<exists>n r. dfs n h v seen = Some r"
proof (induction "untagged h seen" arbitrary: seen v rule: less_induct)
  case less
  show ?case
  proof (rule dfs_total_chain)
    show "chain_ends (length h) h v" using assms by (rule tokens_end_chain)
    show "\<exists>n r. dfs n h v' seen' = Some r" if "untagged h seen' < untagged h seen" for seen' v'
      using that by (rule less)
  qed
qed

section \<open>The rendering phase\<close>

lemma view_Ref_shallow:
  assumes "\<not> (\<exists>es. map_of (tags s) a = None \<and> lookup (nodes s) a = Some (Array es))"
  shows "view insp str (Suc n) s (Ref a) = view insp str (Suc 0) s (Ref a)"
proof (cases "map_of (tags s) a")
  case (Some i)
  then show ?thesis by simp
next
  case None
  note untagged = this
  show ?thesis
  proof (cases "lookup (nodes s) a")
    case None
    with untagged show ?thesis by simp
  next
    case (Some ob)
    show ?thesis
    proof (cases ob)
      case (Object c ps)
      with untagged Some show ?thesis by simp
    next
      case (Array es)
      with untagged Some assms show ?thesis by simp
    qed
  qed
qed

lemma view_mono:
  "view insp str n s e = Some x \<Longrightarrow> n \<le> m \<Longrightarrow> view insp str m s e = Some x"
  "view_each insp str n s es = Some xs \<Longrightarrow> n \<le> m \<Longrightarrow> view_each insp str m s es = Some xs"
proof (induction insp str n s e and insp str n s es arbitrary: x m and xs m
    rule: view_view_each.induct)
  case (1 insp str s e)
  then show ?case by simp
next
  case (2 insp str n s p)
  then obtain m' where "m = Suc m'" by (cases m) auto
  with 2 show ?case by simp
next
  case (3 insp str n s a)
  from 3(3) obtain m' where m: "m = Suc m'" "n \<le> m'" by (cases m) auto
  show ?case
  proof (cases "\<exists>es. map_of (tags s) a = None \<and> lookup (nodes s) a = Some (Array es)")
    case False
    from view_Ref_shallow [OF False, of insp str n] view_Ref_shallow [OF False, of insp str m'] 3(2)
    show ?thesis unfolding m by simp
  next
    case True
    then obtain es where es: "map_of (tags s) a = None" "lookup (nodes s) a = Some (Array es)"
      by blast
    then have nt: "\<not> is_Token (Array es)" by (simp add: is_Token_def)
    from 3(2) es nt obtain xs where xs: "view_each insp str n s es = Some xs"
      by (auto split: option.splits)
    from 3(1) [OF es(1) es(2) nt refl xs m(2)] 3(2) es nt xs show ?thesis
      unfolding m by simp
  qed
next
  case (4 insp str n s)
  then show ?case by simp
next
  case (5 insp str n s e es)
  from 5(3) obtain y where y: "view insp str n s e = Some y"
    by (auto split: option.splits)
  note y' = 5(1) [OF y 5(4)]
  show ?case
  proof (cases y)
    case (Inl x)
    with 5(3) y y' show ?thesis by simp
  next
    case (Inr z)
    with 5(3) y obtain ys where ys: "view_each insp str n s es = Some ys"
      by (auto split: option.splits)
    from 5(2) [OF y Inr ys 5(4)] 5(3) y y' Inr ys show ?thesis by simp
  qed
qed

lemma props_mono:
  "props insp str n s kvs = Some xs \<Longrightarrow> n \<le> m \<Longrightarrow> props insp str m s kvs = Some xs"
proof (induction kvs arbitrary: xs)
  case Nil
  then show ?case by simp
next
  case (Cons kv kvs)
  obtain k v where kv: "kv = (k, v)" by (cases kv)
  from Cons.prems(1) kv obtain y where y: "view insp str n s v = Some y"
    by (auto split: option.splits)
  note y' = view_mono(1) [OF y Cons.prems(2)]
  show ?case
  proof (cases y)
    case (Inl x)
    with Cons.prems(1) kv y y' show ?thesis by simp
  next
    case (Inr z)
    with Cons.prems(1) kv y obtain ys where ys: "props insp str n s kvs = Some ys"
      by (auto split: option.splits)
    from Cons.IH [OF ys Cons.prems(2)] Cons.prems(1) kv y y' Inr ys show ?thesis by simp
  qed
qed

lemma line_mono:
  "line insp str n s e = Some x \<Longrightarrow> n \<le> m \<Longrightarrow> line insp str m s e = Some x"
proof (cases "lookup (nodes s) (fst e)")
  case None
  then show "line insp str n s e = Some x \<Longrightarrow> line insp str m s e = Some x"
    by (simp add: line_def)
next
  case (Some node)
  assume run: "line insp str n s e = Some x" and le: "n \<le> m"
  from run Some obtain ps where ps: "props insp str n s (obj_entries node) = Some ps"
    by (auto simp: line_def split: option.splits)
  from props_mono [OF ps le] run Some ps show "line insp str m s e = Some x"
    by (simp add: line_def)
qed

lemma lines_of_mono:
  "lines_of insp str n s es = Some xs \<Longrightarrow> n \<le> m \<Longrightarrow> lines_of insp str m s es = Some xs"
proof (induction es arbitrary: xs)
  case Nil
  then show ?case by simp
next
  case (Cons e es)
  from Cons.prems(1) obtain y where y: "line insp str n s e = Some y"
    by (auto split: option.splits)
  note y' = line_mono [OF y Cons.prems(2)]
  show ?case
  proof (cases y)
    case (Inl x)
    with Cons.prems(1) y y' show ?thesis by simp
  next
    case (Inr z)
    with Cons.prems(1) y obtain ys where ys: "lines_of insp str n s es = Some ys"
      by (auto split: option.splits)
    from Cons.IH [OF ys Cons.prems(2)] Cons.prems(1) y y' Inr ys show ?thesis by simp
  qed
qed

lemma lines_mono:
  "lines insp str n s = Some xs \<Longrightarrow> n \<le> m \<Longrightarrow> lines insp str m s = Some xs"
  unfolding lines_def by (rule lines_of_mono)

lemma tag_mono:
  assumes "tag n v s = Some s'" and "tags s = number seen" and "n \<le> m"
  shows "tag m v s = Some s'"
proof -
  from assms(1) tag_refines_dfs(1) [OF assms(2), of n v]
  obtain out where out: "dfs n (nodes s) v seen = Some out" "s' = s\<lparr>tags := number out\<rparr>"
    by auto
  from dfs_mono(1) [OF out(1) assms(3)] tag_refines_dfs(1) [OF assms(2), of m v] out(2)
  show ?thesis by simp
qed

lemma sort_number: "sort_key snd (number r) = number r"
proof -
  have "sorted (map snd (number r))"
    unfolding map_snd_number by (rule sorted_upt)
  then show ?thesis by (rule sort_key_id_if_sorted)
qed

lemma map_of_number_seen: "a \<in> set r \<Longrightarrow> \<exists>i. map_of (number r) a = Some i"
  using has_number [of r a] by (auto simp: has_def)

lemma snd_obj_entries: "map snd (obj_entries ob) = obj_values ob"
  by (cases ob) (simp_all add: obj_entries_def obj_values_def)

lemma flat_succs:
  assumes "\<not> is_Token ob" and "v \<in> set (obj_values ob)" and "w \<in> set (flat h v)"
  shows "w \<in> set (succs h ob)"
  using assms by (auto simp: succs_def)

text \<open>What a run of \<open>tag\<close> from the empty map establishes.\<close>

lemma tag_run:
  assumes "tag n (Ref root) \<lparr>nodes = h, tags = []\<rparr> = Some s"
  shows "\<exists>r. dfs n h (Ref root) [] = Some r \<and> s = \<lparr>nodes = h, tags = number r\<rparr>"
proof -
  have "tags \<lparr>nodes = h, tags = []\<rparr> = number []" by (simp add: number_def)
  from tag_refines_dfs(1) [OF this, of n "Ref root"] assms show ?thesis
    by (cases "dfs n h (Ref root) []") auto
qed

lemma lexemes_definedD:
  assumes "lexemes_defined h" and "lookup h a = Some ob" and "is_Token ob"
  shows "\<exists>l. lexeme h ob = Inr l"
proof -
  from assms(2) have "ob \<in> set h"
    by (auto simp: lookup_def split: if_splits)
  with assms(1,3) have "\<not> isl (lexeme h ob)"
    by (simp add: lexemes_defined_def list_all_iff)
  then show ?thesis by (cases "lexeme h ob") simp_all
qed

lemma view_render1:
  assumes "array_elems (nodes s) v = None \<or> (\<exists>a. v = Ref a \<and> has (tags s) a)"
    and "lexemes_defined (nodes s)"
  shows "view insp str (Suc n) s v = Some (Inr (render1 insp str (nodes s) (tags s) v))"
proof (cases v)
  case (Prim p)
  then show ?thesis by (simp add: render1_def)
next
  case (Ref a)
  show ?thesis
  proof (cases "map_of (tags s) a")
    case (Some i)
    with Ref show ?thesis by (simp add: render1_def)
  next
    case None
    with assms(1) Ref have no_array: "array_elems (nodes s) (Ref a) = None"
      by (auto simp: has_def)
    show ?thesis
    proof (cases "lookup (nodes s) a")
      case None
      with Ref \<open>map_of (tags s) a = None\<close> show ?thesis by (simp add: render1_def)
    next
      case (Some ob)
      show ?thesis
      proof (cases "is_Token ob")
        case True
        from lexemes_definedD [OF assms(2) Some True] obtain l where "lexeme (nodes s) ob = Inr l"
          by blast
        with Ref \<open>map_of (tags s) a = None\<close> Some True show ?thesis
          by (simp add: render1_def token_text_def)
      next
        case False
        with no_array Some obtain c ps where "ob = Object c ps"
          by (cases ob) (auto simp: array_elems_def)
        with Ref \<open>map_of (tags s) a = None\<close> Some False show ?thesis
          by (simp add: render1_def)
      qed
    qed
  qed
qed

lemma settled_no_array:
  assumes "settled h r v"
  shows "array_elems h v = None \<or> (\<exists>a. v = Ref a \<and> has (number r) a)"
  using assms
  by (cases rule: settled.cases) (auto simp: array_elems_def has_number is_Token_def split: obj.splits)

lemma view_each_render1:
  assumes "\<forall>v\<in>set es. settled (nodes s) r v" and "tags s = number r"
    and "lexemes_defined (nodes s)"
  shows "view_each insp str (Suc n) s es =
    Some (Inr (map (render1 insp str (nodes s) (tags s)) es))"
  using assms(1)
proof (induction es)
  case Nil
  then show ?case by simp
next
  case (Cons e es)
  then have "settled (nodes s) r e" by simp
  from settled_no_array [OF this] assms(2)
  have "array_elems (nodes s) e = None \<or> (\<exists>a. e = Ref a \<and> has (tags s) a)" by simp
  from view_render1 [OF this assms(3), of insp str n] Cons show ?case by simp
qed

lemma view_render:
  assumes "\<forall>w\<in>set (flat (nodes s) v). settled (nodes s) r w" and "tags s = number r"
    and "lexemes_defined (nodes s)"
  shows "view insp str (Suc (Suc n)) s v = Some (Inr (render insp str (nodes s) (tags s) v))"
proof (cases "array_elems (nodes s) v")
  case None
  from view_render1 [of s v, OF _ assms(3)] None show ?thesis
    by (cases v) (simp_all add: render_def)
next
  case (Some es)
  then obtain a where a: "v = Ref a" "lookup (nodes s) a = Some (Array es)"
    by (auto simp: array_elems_def split: val.splits option.splits obj.splits)
  show ?thesis
  proof (cases "has (tags s) a")
    case True
    with view_render1 [of s v, OF _ assms(3)] a Some show ?thesis
      by (simp add: render_def)
  next
    case False
    from Some assms(1) have "\<forall>w\<in>set es. settled (nodes s) r w" by (simp add: flat_def)
    from view_each_render1 [OF this assms(2,3), of insp str n] a False Some show ?thesis
      by (simp add: render_def has_def is_Token_def)
  qed
qed

lemma props_render:
  assumes "\<forall>v\<in>snd ` set kvs. \<forall>w\<in>set (flat (nodes s) v). settled (nodes s) r w"
    and "tags s = number r" and "lexemes_defined (nodes s)"
  shows "props insp str (Suc (Suc n)) s kvs =
    Some (Inr (map (\<lambda>kv. fst kv @ ''='' @ render insp str (nodes s) (tags s) (snd kv)) kvs))"
  using assms(1)
proof (induction kvs)
  case Nil
  then show ?case by simp
next
  case (Cons kv kvs)
  obtain k v where kv: "kv = (k, v)" by (cases kv)
  with Cons.prems have "\<forall>w\<in>set (flat (nodes s) v). settled (nodes s) r w" by simp
  from view_render [OF this assms(2,3), of insp str n] Cons kv show ?case by simp
qed

lemma line_render:
  assumes closed: "\<forall>a\<in>set r. \<forall>ob. lookup (nodes s) a = Some ob \<longrightarrow>
      (\<forall>w\<in>set (succs (nodes s) ob). settled (nodes s) r w)"
    and nodes: "\<forall>a\<in>set r. is_node (nodes s) a"
    and tags: "tags s = number r" and lex: "lexemes_defined (nodes s)"
    and e: "fst e \<in> set r"
  shows "line insp str (Suc (Suc n)) s e =
    Some (Inr (expected_line insp str (nodes s) (tags s) e))"
proof -
  from nodes e obtain ob where ob: "lookup (nodes s) (fst e) = Some ob" "\<not> is_Token ob"
    by (auto simp: is_node_def split: option.splits)
  have "\<forall>v\<in>snd ` set (obj_entries ob). \<forall>w\<in>set (flat (nodes s) v). settled (nodes s) r w"
  proof (intro ballI)
    fix v w
    assume "v \<in> snd ` set (obj_entries ob)" and w: "w \<in> set (flat (nodes s) v)"
    then have "v \<in> set (obj_values ob)"
      using snd_obj_entries [of ob] by (metis set_map)
    from flat_succs [OF ob(2) this w] closed e ob(1) show "settled (nodes s) r w" by blast
  qed
  from props_render [OF this tags lex, of insp str n] ob(1) show ?thesis
    by (simp add: line_def expected_line_def expected_props_def)
qed

lemma lines_of_render:
  assumes "\<forall>e\<in>set es. line insp str n s e = Some (Inr (f e))"
  shows "lines_of insp str n s es = Some (Inr (map f es))"
  using assms by (induction es) simp_all

lemma lines_render:
  assumes "dfs n h (Ref root) [] = Some r" and "lexemes_defined h"
  shows "lines insp str (Suc (Suc m)) \<lparr>nodes = h, tags = number r\<rparr> =
    Some (Inr (map (expected_line insp str h (number r)) (number r)))"
proof -
  let ?s = "\<lparr>nodes = h, tags = number r\<rparr>"
  from dfs_settles(1) [OF assms(1)] have closed: "\<forall>a\<in>set r. \<forall>ob. lookup (nodes ?s) a = Some ob \<longrightarrow>
      (\<forall>w\<in>set (succs (nodes ?s) ob). settled (nodes ?s) r w)" by simp
  from dfs_extends(1) [OF assms(1)] have nodes: "\<forall>a\<in>set r. is_node (nodes ?s) a" by simp
  have "\<forall>e\<in>set (number r). line insp str (Suc (Suc m)) ?s e =
      Some (Inr (expected_line insp str h (number r) e))"
  proof
    fix e
    assume "e \<in> set (number r)"
    then have "fst e \<in> set (map fst (number r))" by (simp del: map_fst_number)
    then have "fst e \<in> set r" by simp
    with line_render [OF closed nodes, of e insp str m] assms(2)
    show "line insp str (Suc (Suc m)) ?s e = Some (Inr (expected_line insp str h (number r) e))"
      by simp
  qed
  from lines_of_render [OF this] show ?thesis by (simp add: lines_def sort_number)
qed

text \<open>
  The whole run in closed form: where the chains of token values end and the lexemes can
  be read, every sufficient stack depth gives the discovery order as the map and the
  expected output as the text.
\<close>

lemma serialize_spec:
  assumes "tokens_end h" and "lexemes_defined h"
  shows "\<exists>n order. distinct order \<and> set order = reachable_nodes h root \<and>
    (\<forall>a\<in>set order. \<forall>ob. lookup h a = Some ob \<longrightarrow> (\<forall>w\<in>set (succs h ob). settled h order w)) \<and>
    (\<forall>m\<ge>n. dfs m h (Ref root) [] = Some order \<and>
       tag m (Ref root) \<lparr>nodes = h, tags = []\<rparr> = Some \<lparr>nodes = h, tags = number order\<rparr> \<and>
       serialize insp str m h root = Some (Inr (expected_output insp str h order), h))"
proof -
  from dfs_total [OF assms(1), of "Ref root" "[]"] obtain n r
    where r: "dfs n h (Ref root) [] = Some r" by blast
  let ?N = "max n 2"
  let ?s = "\<lparr>nodes = h, tags = number r\<rparr>"
  have init: "tags \<lparr>nodes = h, tags = []\<rparr> = number []" by (simp add: number_def)
  have run: "\<forall>m\<ge>?N. dfs m h (Ref root) [] = Some r \<and>
       tag m (Ref root) \<lparr>nodes = h, tags = []\<rparr> = Some ?s \<and>
       serialize insp str m h root = Some (Inr (expected_output insp str h r), h)"
  proof (intro allI impI)
    fix m
    assume m: "?N \<le> m"
    then have d: "dfs m h (Ref root) [] = Some r"
      using dfs_mono(1) [OF r, of m] by simp
    with tag_refines_dfs(1) [OF init, of m "Ref root"]
    have t: "tag m (Ref root) \<lparr>nodes = h, tags = []\<rparr> = Some ?s" by simp
    from m obtain k where k: "m = Suc (Suc k)"
      by (metis max.boundedE Suc_le_D numeral_2_eq_2 Suc_le_mono)
    from lines_render [OF r assms(2), of insp str k] k t
    have "serialize insp str m h root = Some (Inr (expected_output insp str h r), h)"
      by (simp add: serialize_def expected_output_def)
    with d t show "dfs m h (Ref root) [] = Some r \<and>
       tag m (Ref root) \<lparr>nodes = h, tags = []\<rparr> = Some ?s \<and>
       serialize insp str m h root = Some (Inr (expected_output insp str h r), h)"
      by simp
  qed
  from dfs_settles(1) [OF r] have "\<forall>a\<in>set r. \<forall>ob. lookup h a = Some ob \<longrightarrow>
      (\<forall>w\<in>set (succs h ob). settled h r w)" by simp
  with dfs_reachable_nodes [OF r] run show ?thesis by blast
qed

section \<open>Moving a graph\<close>

lemma rename_val_simps [simp]:
  "rename_val f (Prim p) = Prim p" "rename_val f (Ref a) = Ref (f a)"
  by (simp_all add: rename_val_def)

lemma in_structure_simps [simp]:
  "in_structure F (Prim p)" "in_structure F (Ref a) \<longleftrightarrow> a \<in> F"
  by (simp_all add: in_structure_def)

lemma is_Token_rename [simp]: "is_Token (rename_obj f ob) = is_Token ob"
  by (cases ob) (simp_all add: rename_obj_def is_Token_def)

lemma constructor_name_rename [simp]: "constructor_name (rename_obj f ob) = constructor_name ob"
  by (cases ob) (simp_all add: rename_obj_def constructor_name_def)

lemma obj_values_rename: "obj_values (rename_obj f ob) = map (rename_val f) (obj_values ob)"
  by (cases ob) (simp_all add: rename_obj_def obj_values_def)

lemma obj_entries_rename:
  "obj_entries (rename_obj f ob) = map (\<lambda>kv. (fst kv, rename_val f (snd kv))) (obj_entries ob)"
proof (cases ob)
  case (Object c ps)
  then show ?thesis by (simp add: rename_obj_def obj_entries_def)
next
  case (Array es)
  have "zip ks (map g es) = map (\<lambda>kv. (fst kv, g (snd kv))) (zip ks es)" for ks :: "string list" and g
    by (induction ks es rule: list_induct2') simp_all
  with Array show ?thesis by (simp add: rename_obj_def obj_entries_def)
qed

lemma own_property_rename:
  "own_property (map (\<lambda>kv. (fst kv, rename_val f (snd kv))) ps) k = rename_val f (own_property ps k)"
  by (induction ps) (auto simp: own_property_def)

lemma own_property_in_structure:
  assumes "\<forall>v\<in>set (map snd ps). in_structure F v"
  shows "in_structure F (own_property ps k)"
proof (cases "map_of ps k")
  case None
  then show ?thesis by (simp add: own_property_def)
next
  case (Some v)
  then have "(k, v) \<in> set ps" by (rule map_of_SomeD)
  then have "v \<in> set (map snd ps)" by force
  with assms have "in_structure F v" by blast
  with Some show ?thesis by (simp add: own_property_def)
qed

lemma structure_root: "root \<in> reachable_structure h root"
  by (simp add: reachable_structure_def)

lemma structure_closed:
  assumes "a \<in> reachable_structure h root" and "lookup h a = Some ob"
  shows "\<forall>v\<in>set (obj_values ob). in_structure (reachable_structure h root) v"
proof
  fix v
  assume v: "v \<in> set (obj_values ob)"
  show "in_structure (reachable_structure h root) v"
  proof (cases v)
    case (Prim p)
    then show ?thesis by simp
  next
    case (Ref b)
    with v assms(2) have "(a, b) \<in> refs h" by (auto simp: refs_def)
    with assms(1) have "(root, b) \<in> (refs h)\<^sup>*"
      unfolding reachable_structure_def by (simp add: rtrancl_into_rtrancl)
    with Ref show ?thesis by (simp add: reachable_structure_def)
  qed
qed

lemma lookup_rename:
  assumes "same_structure f h root h'" and "a \<in> reachable_structure h root"
  shows "lookup h' (f a) = map_option (rename_obj f) (lookup h a)"
  using assms by (simp add: same_structure_def)

lemma array_elems_rename:
  assumes "same_structure f h root h'" and "in_structure (reachable_structure h root) v"
  shows "array_elems h' (rename_val f v) = map_option (map (rename_val f)) (array_elems h v)"
proof (cases v)
  case (Prim p)
  then show ?thesis by (simp add: array_elems_def)
next
  case (Ref a)
  with assms(2) have "a \<in> reachable_structure h root" by simp
  from lookup_rename [OF assms(1) this] Ref show ?thesis
    by (auto simp: array_elems_def rename_obj_def split: option.splits obj.splits)
qed

lemma flat_rename:
  assumes "same_structure f h root h'" and "in_structure (reachable_structure h root) v"
  shows "flat h' (rename_val f v) = map (rename_val f) (flat h v)"
    and "\<forall>w\<in>set (flat h v). in_structure (reachable_structure h root) w"
proof -
  from array_elems_rename [OF assms] show "flat h' (rename_val f v) = map (rename_val f) (flat h v)"
    by (simp add: flat_def split: option.splits)
  show "\<forall>w\<in>set (flat h v). in_structure (reachable_structure h root) w"
  proof (cases "array_elems h v")
    case None
    with assms(2) show ?thesis by (simp add: flat_def)
  next
    case (Some es)
    then obtain a where a: "v = Ref a" "lookup h a = Some (Array es)"
      by (auto simp: array_elems_def split: val.splits option.splits obj.splits)
    with assms(2) have "a \<in> reachable_structure h root" by simp
    from structure_closed [OF this a(2)] Some show ?thesis
      by (simp add: flat_def obj_values_def)
  qed
qed

lemma succs_rename:
  assumes "same_structure f h root h'" and "a \<in> reachable_structure h root"
    and "lookup h a = Some ob"
  shows "succs h' (rename_obj f ob) = map (rename_val f) (succs h ob)"
    and "\<forall>w\<in>set (succs h ob). in_structure (reachable_structure h root) w"
proof -
  note closed = structure_closed [OF assms(2,3)]
  have vals: "\<forall>v\<in>set (map snd (obj_entries ob)). in_structure (reachable_structure h root) v"
    using closed by (simp add: snd_obj_entries)
  have flats: "concat (map (flat h') (map (rename_val f) vs)) =
      map (rename_val f) (concat (map (flat h) vs)) \<and>
      (\<forall>w\<in>set (concat (map (flat h) vs)). in_structure (reachable_structure h root) w)"
    if "\<forall>v\<in>set vs. in_structure (reachable_structure h root) v" for vs
    using that
  proof (induction vs)
    case Nil
    then show ?case by simp
  next
    case (Cons v vs)
    then have v: "in_structure (reachable_structure h root) v" by simp
    from flat_rename [OF assms(1) v] Cons show ?case by auto
  qed
  show "succs h' (rename_obj f ob) = map (rename_val f) (succs h ob)"
    using flats [OF closed]
    by (simp add: succs_def obj_values_rename obj_entries_rename own_property_rename)
  show "\<forall>w\<in>set (succs h ob). in_structure (reachable_structure h root) w"
    using flats [OF closed] own_property_in_structure [OF vals]
    by (simp add: succs_def)
qed

lemma dfs_rename:
  "same_structure f h root h' \<Longrightarrow>
      in_structure (reachable_structure h root) v \<Longrightarrow> set seen \<subseteq> reachable_structure h root \<Longrightarrow>
      dfs n h' (rename_val f v) (map f seen) = map_option (map f) (dfs n h v seen) \<and>
      (\<forall>r. dfs n h v seen = Some r \<longrightarrow> set r \<subseteq> reachable_structure h root)"
  "same_structure f h root h' \<Longrightarrow>
      \<forall>v\<in>set vs. in_structure (reachable_structure h root) v \<Longrightarrow>
      set seen \<subseteq> reachable_structure h root \<Longrightarrow>
      dfs_list n h' (map (rename_val f) vs) (map f seen) = map_option (map f) (dfs_list n h vs seen) \<and>
      (\<forall>r. dfs_list n h vs seen = Some r \<longrightarrow> set r \<subseteq> reachable_structure h root)"
proof (induction n h v seen and n h vs seen rule: dfs_dfs_list.induct)
  case (1 h v seen)
  then show ?case by simp
next
  case (2 n h p seen)
  then show ?case by simp
next
  case (3 n h a seen)
  let ?F = "reachable_structure h root"
  note iso = 3(2)
  from 3(3) have a: "a \<in> ?F" by simp
  from iso have inj: "inj_on f ?F" by (simp add: same_structure_def)
  from inj a 3(4) have mem: "f a \<in> set (map f seen) \<longleftrightarrow> a \<in> set seen"
    by (auto simp: inj_on_def)
  note look = lookup_rename [OF iso a]
  show ?case
  proof (cases "a \<in> set seen \<or> lookup h a = None")
    case True
    with mem look 3(4) show ?thesis by auto
  next
    case False
    then obtain ob where ob: "a \<notin> set seen" "lookup h a = Some ob" by auto
    let ?seen = "if is_Token ob then seen else seen @ [a]"
    from 3(4) a have sub: "set ?seen \<subseteq> ?F" by simp
    note s = succs_rename [OF iso a ob(2)]
    from 3(1) [OF ob iso s(2) sub] s(1) ob mem look show ?thesis
      by (cases "is_Token ob") simp_all
  qed
next
  case (4 n h seen)
  then show ?case by simp
next
  case (5 n h v vs seen)
  let ?F = "reachable_structure h root"
  note iso = 5(3)
  from 5(4) have v: "in_structure ?F v" and vs: "\<forall>w\<in>set vs. in_structure ?F w" by simp_all
  note ih1 = 5(1) [OF iso v 5(5)]
  show ?case
  proof (cases "dfs n h v seen")
    case None
    with ih1 show ?thesis by simp
  next
    case (Some r1)
    with ih1 have sub: "set r1 \<subseteq> ?F" by simp
    from 5(2) [OF Some iso vs sub] ih1 Some show ?thesis by simp
  qed
qed

lemma map_of_zip_rename:
  "inj_on f (insert a (set xs)) \<Longrightarrow>
     map_of (zip (map f xs) ys) (f a) = map_of (zip xs ys) a"
proof (induction xs arbitrary: ys)
  case Nil
  then show ?case by simp
next
  case (Cons x xs)
  from Cons.prems have inj: "inj_on f (insert a (set xs))"
    by (rule inj_on_subset) auto
  from Cons.prems have eq: "f x = f a \<longleftrightarrow> x = a"
    by (auto simp: inj_on_def)
  show ?case
  proof (cases ys)
    case Nil
    then show ?thesis by simp
  next
    case (Cons y ys')
    with Cons.IH [OF inj, of ys'] eq show ?thesis by auto
  qed
qed

lemma map_of_number_rename:
  assumes "inj_on f F" and "set r \<subseteq> F" and "a \<in> F"
  shows "map_of (number (map f r)) (f a) = map_of (number r) a"
proof -
  from assms(2,3) have "insert a (set r) \<subseteq> F" by simp
  with assms(1) have "inj_on f (insert a (set r))"
    by (rule inj_on_subset)
  then show ?thesis
    by (simp add: number_def map_of_zip_rename del: upt_Suc)
qed

lemma member_rename:
  assumes "same_structure f h root h'" and "in_structure (reachable_structure h root) v"
  shows "member h' (rename_val f v) k = map_sum id (rename_val f) (member h v k)"
    and "\<forall>l. member h v k = Inr l \<longrightarrow> in_structure (reachable_structure h root) l"
proof -
  have "member h' (rename_val f v) k = map_sum id (rename_val f) (member h v k) \<and>
    (\<forall>l. member h v k = Inr l \<longrightarrow> in_structure (reachable_structure h root) l)"
  proof (cases v)
    case (Prim p)
    then show ?thesis by (cases p) (simp_all add: member_def)
  next
    case (Ref a)
    with assms(2) have a: "a \<in> reachable_structure h root" by simp
    note look = lookup_rename [OF assms(1) a]
    show ?thesis
    proof (cases "lookup h a")
      case None
      with look Ref show ?thesis by (simp add: member_def)
    next
      case (Some ob)
      show ?thesis
      proof (cases ob)
        case (Object c ps)
        from structure_closed [OF a Some] Object
        have "\<forall>v\<in>set (map snd ps). in_structure (reachable_structure h root) v"
          by (simp add: obj_values_def)
        from own_property_in_structure [OF this, of k] look Ref Some Object show ?thesis
          by (simp add: member_def rename_obj_def own_property_rename)
      next
        case (Array es)
        with look Ref Some show ?thesis by (simp add: member_def rename_obj_def)
      qed
    qed
  qed
  then show "member h' (rename_val f v) k = map_sum id (rename_val f) (member h v k)"
    and "\<forall>l. member h v k = Inr l \<longrightarrow> in_structure (reachable_structure h root) l"
    by simp_all
qed

lemma lexeme_rename:
  assumes "same_structure f h root h'" and "a \<in> reachable_structure h root"
    and "lookup h a = Some ob"
  shows "lexeme h' (rename_obj f ob) = map_sum id (rename_val f) (lexeme h ob)"
    and "\<forall>l. lexeme h ob = Inr l \<longrightarrow> in_structure (reachable_structure h root) l"
proof -
  from structure_closed [OF assms(2,3)]
  have "\<forall>v\<in>set (map snd (obj_entries ob)). in_structure (reachable_structure h root) v"
    by (simp add: snd_obj_entries)
  then have src: "in_structure (reachable_structure h root) (own_property (obj_entries ob) ''source'')"
    by (rule own_property_in_structure)
  from member_rename [OF assms(1) src, of "''contents''"]
  show "lexeme h' (rename_obj f ob) = map_sum id (rename_val f) (lexeme h ob)"
    and "\<forall>l. lexeme h ob = Inr l \<longrightarrow> in_structure (reachable_structure h root) l"
    by (simp_all add: lexeme_def obj_entries_rename own_property_rename)
qed

lemma host_agreesD:
  assumes "host_agrees insp str f h root h'" and "in_structure (reachable_structure h root) v"
  shows "insp h' (rename_val f v) = insp h v" and "str (rename_val f v) = str v"
  using assms by (simp_all add: host_agrees_def)

lemma template_rename:
  assumes "host_agrees insp str f h root h'" and "in_structure (reachable_structure h root) v"
  shows "template str (rename_val f v) = template str v"
proof (cases v)
  case (Prim p)
  then show ?thesis by simp
next
  case (Ref a)
  from host_agreesD(2) [OF assms] Ref show ?thesis by (simp add: template_def)
qed

lemma view_rename:
  "same_structure f (nodes s) root h' \<Longrightarrow> host_agrees insp str f (nodes s) root h' \<Longrightarrow>
     tags s = number r \<Longrightarrow> set r \<subseteq> reachable_structure (nodes s) root \<Longrightarrow>
     in_structure (reachable_structure (nodes s) root) e \<Longrightarrow>
     view insp str n \<lparr>nodes = h', tags = number (map f r)\<rparr> (rename_val f e) = view insp str n s e"
  "same_structure f (nodes s) root h' \<Longrightarrow> host_agrees insp str f (nodes s) root h' \<Longrightarrow>
     tags s = number r \<Longrightarrow> set r \<subseteq> reachable_structure (nodes s) root \<Longrightarrow>
     \<forall>e\<in>set es. in_structure (reachable_structure (nodes s) root) e \<Longrightarrow>
     view_each insp str n \<lparr>nodes = h', tags = number (map f r)\<rparr> (map (rename_val f) es) =
       view_each insp str n s es"
proof (induction insp str n s e and insp str n s es rule: view_view_each.induct)
  case (1 insp str s e)
  then show ?case by simp
next
  case (2 insp str n s p)
  from host_agreesD(1) [OF 2(2), of "Prim p"] show ?case by simp
next
  case (3 insp str n s a)
  let ?F = "reachable_structure (nodes s) root"
  let ?s' = "\<lparr>nodes = h', tags = number (map f r)\<rparr>"
  note iso = 3(2) and host = 3(3)
  from 3(6) have a: "a \<in> ?F" by simp
  from iso have "inj_on f ?F" by (simp add: same_structure_def)
  from map_of_number_rename [OF this 3(5) a] 3(4)
  have tag_eq: "map_of (tags ?s') (f a) = map_of (tags s) a" by simp
  note look = lookup_rename [OF iso a]
  from host_agreesD(1) [OF host, of "Ref a"] a
  have insp_eq: "insp h' (Ref (f a)) = insp (nodes s) (Ref a)" by simp
  show ?case
  proof (cases "map_of (tags s) a")
    case (Some i)
    with tag_eq show ?thesis by simp
  next
    case None
    note untagged = this
    show ?thesis
    proof (cases "lookup (nodes s) a")
      case None
      with untagged tag_eq look insp_eq show ?thesis by simp
    next
      case (Some ob)
      show ?thesis
      proof (cases "is_Token ob")
        case True
        note lex = lexeme_rename [OF iso a Some]
        from structure_closed [OF a Some]
        have "\<forall>v\<in>set (map snd (obj_entries ob)). in_structure ?F v"
          by (simp add: snd_obj_entries)
        then have "in_structure ?F (own_property (obj_entries ob) ''category'')"
          by (rule own_property_in_structure)
        from template_rename [OF host this]
        have cat: "template str (own_property (obj_entries (rename_obj f ob)) ''category'') =
            template str (own_property (obj_entries ob) ''category'')"
          by (simp add: obj_entries_rename own_property_rename)
        show ?thesis
        proof (cases "lexeme (nodes s) ob")
          case (Inl x)
          with lex(1) untagged tag_eq look Some True show ?thesis by simp
        next
          case (Inr l)
          with lex(2) have "in_structure ?F l" by simp
          from template_rename [OF host this] Inr lex(1) cat untagged tag_eq look Some True
          show ?thesis by simp
        qed
      next
        case False
        show ?thesis
        proof (cases ob)
          case (Object c ps)
          with False untagged tag_eq look Some insp_eq show ?thesis
            by (simp add: rename_obj_def is_Token_def)
        next
          case (Array es)
          from structure_closed [OF a Some] Array
          have elems: "\<forall>e\<in>set es. in_structure ?F e" by (simp add: obj_values_def)
          from Array have nt: "\<not> is_Token (Array es)" by (simp add: is_Token_def)
          from 3(1) [OF untagged Some [unfolded Array] nt refl iso host 3(4) 3(5) elems]
            untagged tag_eq look Some Array show ?thesis
            by (simp add: rename_obj_def is_Token_def)
        qed
      qed
    qed
  qed
next
  case (4 insp str n s)
  then show ?case by simp
next
  case (5 insp str n s e es)
  from 5(7) have e: "in_structure (reachable_structure (nodes s) root) e"
    and es: "\<forall>e\<in>set es. in_structure (reachable_structure (nodes s) root) e" by simp_all
  note ih1 = 5(1) [OF 5(3-6) e]
  show ?case
  proof (cases "view insp str n s e")
    case None
    with ih1 show ?thesis by simp
  next
    case (Some y)
    show ?thesis
    proof (cases y)
      case (Inl x)
      with Some ih1 show ?thesis by simp
    next
      case (Inr z)
      from 5(2) [OF Some Inr 5(3-6) es] Some Inr ih1 show ?thesis by simp
    qed
  qed
qed

lemma props_rename:
  assumes "same_structure f (nodes s) root h'" and "host_agrees insp str f (nodes s) root h'"
    and "tags s = number r" and "set r \<subseteq> reachable_structure (nodes s) root"
  shows "\<forall>v\<in>set (map snd kvs). in_structure (reachable_structure (nodes s) root) v \<Longrightarrow>
    props insp str n \<lparr>nodes = h', tags = number (map f r)\<rparr>
      (map (\<lambda>kv. (fst kv, rename_val f (snd kv))) kvs) = props insp str n s kvs"
proof (induction kvs)
  case Nil
  then show ?case by simp
next
  case (Cons kv kvs)
  obtain k v where kv: "kv = (k, v)" by (cases kv)
  with Cons.prems have "in_structure (reachable_structure (nodes s) root) v" by simp
  from view_rename(1) [OF assms this, of n] Cons kv show ?case
    by (simp split: option.splits sum.splits)
qed

lemma line_rename:
  assumes "same_structure f (nodes s) root h'" and "host_agrees insp str f (nodes s) root h'"
    and "tags s = number r" and "set r \<subseteq> reachable_structure (nodes s) root"
    and "a \<in> reachable_structure (nodes s) root"
  shows "line insp str n \<lparr>nodes = h', tags = number (map f r)\<rparr> (f a, i) = line insp str n s (a, i)"
proof (cases "lookup (nodes s) a")
  case None
  with lookup_rename [OF assms(1,5)] show ?thesis by (simp add: line_def)
next
  case (Some ob)
  from structure_closed [OF assms(5) Some]
  have "\<forall>v\<in>set (map snd (obj_entries ob)). in_structure (reachable_structure (nodes s) root) v"
    by (simp add: snd_obj_entries)
  from props_rename [OF assms(1-4) this, of n] lookup_rename [OF assms(1,5)] Some
  show ?thesis by (simp add: line_def obj_entries_rename split: option.splits sum.splits)
qed

lemma lines_of_rename:
  assumes "same_structure f (nodes s) root h'" and "host_agrees insp str f (nodes s) root h'"
    and "tags s = number r" and "set r \<subseteq> reachable_structure (nodes s) root"
  shows "fst ` set es \<subseteq> reachable_structure (nodes s) root \<Longrightarrow>
    lines_of insp str n \<lparr>nodes = h', tags = number (map f r)\<rparr> (map (\<lambda>e. (f (fst e), snd e)) es) =
      lines_of insp str n s es"
proof (induction es)
  case Nil
  then show ?case by simp
next
  case (Cons e es)
  then have "fst e \<in> reachable_structure (nodes s) root" by simp
  from line_rename [OF assms this, of n "snd e"] Cons show ?case
    by (simp split: option.splits sum.splits)
qed

lemma number_map: "number (map f r) = map (\<lambda>e. (f (fst e), snd e)) (number r)"
  by (simp add: number_def zip_map1 case_prod_beta del: upt_Suc)

lemma serialize_rename:
  assumes iso: "same_structure f h root h'" and host: "host_agrees insp str f h root h'"
  shows "serialize insp str n h' (f root) = map_option (\<lambda>x. (fst x, h')) (serialize insp str n h root)"
proof -
  have init: "tags \<lparr>nodes = h, tags = []\<rparr> = number []" "tags \<lparr>nodes = h', tags = []\<rparr> = number []"
    by (simp_all add: number_def)
  note t = tag_refines_dfs(1) [OF init(1), of n "Ref root"]
  note t' = tag_refines_dfs(1) [OF init(2), of n "Ref (f root)"]
  from dfs_rename(1) [OF iso, of "Ref root" "[]" n] structure_root [of root h]
  have d: "dfs n h' (Ref (f root)) [] = map_option (map f) (dfs n h (Ref root) [])"
    and sub: "\<forall>r. dfs n h (Ref root) [] = Some r \<longrightarrow> set r \<subseteq> reachable_structure h root"
    by simp_all
  show ?thesis
  proof (cases "dfs n h (Ref root) []")
    case None
    with d t t' show ?thesis by (simp add: serialize_def)
  next
    case (Some r)
    let ?s = "\<lparr>nodes = h, tags = number r\<rparr>"
    let ?s' = "\<lparr>nodes = h', tags = number (map f r)\<rparr>"
    from Some sub have r: "set r \<subseteq> reachable_structure (nodes ?s) root" by simp
    have "fst ` set (number r) \<subseteq> reachable_structure (nodes ?s) root"
      using r by (metis map_fst_number set_map)
    from lines_of_rename [of f ?s root h' insp str r "number r" n, OF _ _ _ r this] iso host
    have "lines insp str n ?s' = lines insp str n ?s"
      by (simp add: lines_def sort_number number_map [symmetric])
    with Some d t t' show ?thesis
      by (simp add: serialize_def split: option.splits sum.splits)
  qed
qed

lemma closed_heap_structure:
  assumes "closed_heap h" and "root < length h"
  shows "reachable_structure h root \<subseteq> {a. a < length h}"
proof
  fix a
  assume "a \<in> reachable_structure h root"
  then have "(root, a) \<in> (refs h)\<^sup>*" by (simp add: reachable_structure_def)
  then have "a < length h"
  proof (induction rule: rtrancl_induct)
    case base
    from assms(2) show ?case .
  next
    case (step b c)
    from step(2) obtain ob where ob: "lookup h b = Some ob" "Ref c \<in> set (obj_values ob)"
      by (auto simp: refs_def)
    from ob(1) have "ob \<in> set h" by (auto simp: lookup_def split: if_splits)
    with assms(1) ob(2) show ?case
      by (fastforce simp: closed_heap_def list_all_iff)
  qed
  then show "a \<in> {a. a < length h}" by simp
qed

lemma rename_id [simp]: "rename_val id v = v" "rename_obj id ob = ob"
proof -
  show v: "rename_val id v = v" for v by (cases v) simp_all
  have "(\<lambda>kv. (fst kv, rename_val id (snd kv))) = id" "rename_val id = id"
    using v by (auto simp: fun_eq_iff)
  then show "rename_obj id ob = ob"
    by (cases ob) (simp_all add: rename_obj_def)
qed

lemma serialize_agree:
  assumes "\<forall>a\<in>reachable_structure h root. lookup h' a = lookup h a"
    and "\<forall>v. in_structure (reachable_structure h root) v \<longrightarrow> insp h' v = insp h v"
  shows "serialize insp str n h' root = map_option (\<lambda>x. (fst x, h')) (serialize insp str n h root)"
proof -
  have "rename_obj id = id" by (rule ext) simp
  with assms(1) have "same_structure id h root h'"
    by (simp add: same_structure_def option.map_id)
  moreover from assms(2) have "host_agrees insp str id h root h'"
    by (simp add: host_agrees_def)
  ultimately show ?thesis
    using serialize_rename [of id h root h' insp str n] by simp
qed

section \<open>Properties of the serializer\<close>

lemma tag_nodes:
  "tag n v s = Some s' \<Longrightarrow> nodes s' = nodes s"
  "tag_each n es s = Some s' \<Longrightarrow> nodes s' = nodes s"
  "tag_children n cs s = Some s' \<Longrightarrow> nodes s' = nodes s"
proof (induction n v s and n es s and n cs s arbitrary: s' and s' and s'
    rule: tag_tag_each_tag_children.induct)
  case (1 node s)
  then show ?case by simp
next
  case (2 n p s)
  then show ?case by simp
next
  case (3 n a s)
  show ?case
  proof (cases "has (tags s) a \<or> lookup (nodes s) a = None")
    case True
    with 3(3) show ?thesis by (auto split: if_splits)
  next
    case False
    then obtain ob where ob: "\<not> has (tags s) a" "lookup (nodes s) a = Some ob" by auto
    show ?thesis
    proof (cases "is_Token ob")
      case True
      with 3(3) ob have "tag n (own_property (obj_entries ob) ''value'') s = Some s'" by simp
      from 3(1) [OF ob True this] show ?thesis .
    next
      case False
      with 3(3) ob have "tag_children n (obj_values ob) (set_next a s) = Some s'" by simp
      from 3(2) [OF ob False this] show ?thesis by (simp add: set_next_def)
    qed
  qed
next
  case (4 n s)
  then show ?case by simp
next
  case (5 n e es s)
  from 5(3) obtain s1 where s1: "tag n e s = Some s1" "tag_each n es s1 = Some s'"
    by (auto split: option.splits)
  from 5(1) [OF s1(1)] 5(2) [OF s1] show ?case by simp
next
  case (6 n s)
  then show ?case by simp
next
  case (7 n child cs s)
  let ?first = "case array_elems (nodes s) child of Some es \<Rightarrow> tag_each n es s | None \<Rightarrow> tag n child s"
  from 7(4) obtain s1 where s1: "?first = Some s1" "tag_children n cs s1 = Some s'"
    by (auto split: option.splits)
  have "nodes s1 = nodes s"
  proof (cases "array_elems (nodes s) child")
    case None
    with s1(1) 7(1) [OF None, of s1] show ?thesis by simp
  next
    case (Some es)
    with s1(1) 7(2) [OF Some, of s1] show ?thesis by simp
  qed
  with 7(3) [OF s1] show ?case by simp
qed

text \<open>
  Claim C9. The serializer does not change the nodes: the store that a run leaves is the
  store that it was started on, and so is the store after every call of \<open>tag\<close>; only the
  map of the tags grows.
\<close>

theorem serialize_leaves_nodes:
  "(serialize insp str n h root = Some (out, h') \<longrightarrow> h' = h) \<and>
   (tag n v s = Some s' \<longrightarrow> nodes s' = nodes s)"
proof (intro conjI impI)
  assume "serialize insp str n h root = Some (out, h')"
  then obtain s1 where "tag n (Ref root) \<lparr>nodes = h, tags = []\<rparr> = Some s1" "h' = nodes s1"
    by (auto simp: serialize_def split: option.splits sum.splits)
  with tag_nodes(1) [of n "Ref root" "\<lparr>nodes = h, tags = []\<rparr>" s1] show "h' = h" by simp
next
  assume "tag n v s = Some s'"
  then show "nodes s' = nodes s" by (rule tag_nodes(1))
qed

theorem serialize_leaves_nodes_witness:
  "\<exists>out. serialize inspect_sample str_sample 6 cyclic_heap 0 = Some (out, cyclic_heap)"
proof -
  have "serialize inspect_sample str_sample 6 cyclic_heap 0 \<noteq> None"
    by code_simp
  then obtain out h' where run: "serialize inspect_sample str_sample 6 cyclic_heap 0 = Some (out, h')"
    by auto
  with serialize_leaves_nodes [of inspect_sample str_sample 6 cyclic_heap 0 out h']
  show ?thesis by simp
qed

lemma serialize_mono:
  assumes "serialize insp str n h root = Some x" and "n \<le> m"
  shows "serialize insp str m h root = Some x"
proof -
  from assms(1) obtain s where s: "tag n (Ref root) \<lparr>nodes = h, tags = []\<rparr> = Some s"
    by (auto simp: serialize_def split: option.splits)
  with assms(1) obtain ls where ls: "lines insp str n s = Some ls"
    by (auto simp: serialize_def split: option.splits)
  have "tags \<lparr>nodes = h, tags = []\<rparr> = number []" by (simp add: number_def)
  from tag_mono [OF s this assms(2)] lines_mono [OF ls assms(2)] assms(1) s ls
  show ?thesis by (simp add: serialize_def)
qed

lemma filter_key_distinct:
  "distinct (map fst xs) \<Longrightarrow> (a, i) \<in> set xs \<Longrightarrow> filter (\<lambda>e. fst e = a) xs = [(a, i)]"
proof (induction xs)
  case Nil
  then show ?case by simp
next
  case (Cons x xs)
  show ?case
  proof (cases "fst x = a")
    case True
    with Cons.prems have "x = (a, i)"
      by (cases x) (force simp: image_iff)
    moreover from True Cons.prems(1) have "filter (\<lambda>e. fst e = a) xs = []"
      by (fastforce simp: filter_empty_conv image_iff)
    ultimately show ?thesis by simp
  next
    case False
    with Cons show ?thesis by auto
  qed
qed

lemma example_program_eq:
  "example_program =
     (10,
      static_heap @
      [Object ''Node'' [(''contents'', Prim (String ''5''))],
       Object ''Token'' [(''category'', Prim (String ''number'')), (''source'', Ref 5)],
       Object ''Variable'' [(''name'', Prim (String ''x''))],
       Object ''VariableDeclaration''
         [(''type'', Ref 1), (''variable'', Ref 7), (''initializer'', Ref 6)],
       Array [Ref 8],
       Object ''Program'' [(''statements'', Ref 9)]])"
  by (simp add: example_program_def alloc_def new_Token_def new_Variable_def
      new_VariableDeclaration_def new_Array_def new_Program_def static_heap_def Type_INT_def)

lemma example_program_run:
  "serialize insp str 4 (snd example_program) (fst example_program) =
     Some (Inr (join [CHR 0x0A]
       [''   1 | Program statements=[#2]'',
        ''   2 | VariableDeclaration type=#3 variable=#4 initializer=(number,''
          @ [CHR 0x22] @ ''5'' @ [CHR 0x22] @ '')'',
        ''   3 | Type typename='' @ insp (snd example_program) (Prim (String ''pog'')),
        ''   4 | Variable name='' @ insp (snd example_program) (Prim (String ''x''))]),
       snd example_program)"
proof -
  let ?h = "snd example_program"
  let ?t = "[(10, 1), (8, 2), (1, 3), (7, 4)] :: (addr \<times> nat) list"
  let ?s = "\<lparr>nodes = ?h, tags = ?t\<rparr>"
  have run: "tag 4 (Ref 10) \<lparr>nodes = ?h, tags = []\<rparr> = Some ?s"
    by code_simp
  have sorted: "sort_key snd ?t = ?t"
    by code_simp
  have l1: "line insp str 4 ?s (10, 1) = Some (Inr ''   1 | Program statements=[#2]'')"
    by code_simp
  have l2: "line insp str 4 ?s (8, 2) =
      Some (Inr (''   2 | VariableDeclaration type=#3 variable=#4 initializer=(number,''
        @ [CHR 0x22] @ ''5'' @ [CHR 0x22] @ '')''))"
    by code_simp
  have l3: "line insp str 4 ?s (1, 3) =
      Some (Inr (''   3 | Type typename='' @ insp ?h (Prim (String ''pog''))))"
    by code_simp
  have l4: "line insp str 4 ?s (7, 4) =
      Some (Inr (''   4 | Variable name='' @ insp ?h (Prim (String ''x''))))"
    by code_simp
  have root: "fst example_program = 10"
    by (simp add: example_program_eq)
  from run sorted l1 l2 l3 l4 show ?thesis
    unfolding root by (simp add: serialize_def lines_def)
qed

text \<open>
  Claim C8, as amended. The example program is printed in four lines: the program has the
  tag 1, the declaration 2, the type \<open>INT\<close> 3 and the variable 4, since the type and the
  variable are objects that are not tokens. The initializer renders as \<open>(number,"5")\<close>;
  the token has no line. The two strings are printed by the host's \<^verbatim>\<open>util.inspect\<close>.
\<close>

theorem example_program_output:
  "tag (4 + n) (Ref (fst example_program)) \<lparr>nodes = snd example_program, tags = []\<rparr> =
     Some \<lparr>nodes = snd example_program, tags = [(10, 1), (8, 2), (1, 3), (7, 4)]\<rparr> \<and>
   serialize insp str (4 + n) (snd example_program) (fst example_program) =
     Some (Inr (join [CHR 0x0A]
       [''   1 | Program statements=[#2]'',
        ''   2 | VariableDeclaration type=#3 variable=#4 initializer=(number,''
          @ [CHR 0x22] @ ''5'' @ [CHR 0x22] @ '')'',
        ''   3 | Type typename='' @ insp (snd example_program) (Prim (String ''pog'')),
        ''   4 | Variable name='' @ insp (snd example_program) (Prim (String ''x''))]),
       snd example_program)"
proof -
  have init: "tags \<lparr>nodes = snd example_program, tags = []\<rparr> = number []"
    by (simp add: number_def)
  have "tag 4 (Ref (fst example_program)) \<lparr>nodes = snd example_program, tags = []\<rparr> =
     Some \<lparr>nodes = snd example_program, tags = [(10, 1), (8, 2), (1, 3), (7, 4)]\<rparr>"
    by code_simp
  from tag_mono [OF this init, of "4 + n"] serialize_mono [OF example_program_run, of "4 + n"]
  show ?thesis by simp
qed

text \<open>
  The claim as stated fails: the map has four entries and the output has four lines, not
  two.
\<close>

theorem example_program_four_lines:
  "map_option (\<lambda>s. length (tags s))
     (tag 4 (Ref (fst example_program)) \<lparr>nodes = snd example_program, tags = []\<rparr>) = Some 4 \<and>
   serialize inspect_sample str_sample 4 (snd example_program) (fst example_program) =
     Some (Inr (join [CHR 0x0A]
       [''   1 | Program statements=[#2]'',
        ''   2 | VariableDeclaration type=#3 variable=#4 initializer=(number,''
          @ [CHR 0x22] @ ''5'' @ [CHR 0x22] @ '')'',
        ''   3 | Type typename='' @ [CHR 0x27] @ ''pog'' @ [CHR 0x27],
        ''   4 | Variable name='' @ [CHR 0x27] @ ''x'' @ [CHR 0x27]]),
       snd example_program)"
  by code_simp

text \<open>
  Claim C4. The result of the serializer depends on nothing but the structure that the
  root reaches. When a second store holds the same structure, at whatever addresses and
  next to whatever other objects, the serializer, given the same stack depth, returns on
  the second store exactly when it returns on the first, with the same text or the same
  error: the addresses of the nodes do not enter the text, since the map is walked in the
  order of insertion and the properties in the order of enumeration. In particular a
  store that agrees with the first on the reachable structure gives the same result, and
  a second call on the store that a first call leaves returns what the first call
  returned, whatever stack depth each of them has available.
\<close>

theorem serialize_depends_on_structure:
  assumes "same_structure f h root h'" and "host_agrees insp str f h root h'"
  shows "serialize insp str n h' (f root) =
      map_option (\<lambda>x. (fst x, h')) (serialize insp str n h root) \<and>
    ((\<forall>a\<in>reachable_structure h root. lookup g a = lookup h a) \<and>
     (\<forall>v. in_structure (reachable_structure h root) v \<longrightarrow> insp g v = insp h v) \<longrightarrow>
       serialize insp str n g root = map_option (\<lambda>x. (fst x, g)) (serialize insp str n h root)) \<and>
    (\<forall>out h1 m out2 h2.
       serialize insp str n h root = Some (out, h1) \<and>
       serialize insp str m h1 root = Some (out2, h2) \<longrightarrow> out2 = out \<and> h2 = h)"
proof (intro conjI allI impI)
  show "serialize insp str n h' (f root) =
      map_option (\<lambda>x. (fst x, h')) (serialize insp str n h root)"
    using assms by (rule serialize_rename)
next
  assume "(\<forall>a\<in>reachable_structure h root. lookup g a = lookup h a) \<and>
     (\<forall>v. in_structure (reachable_structure h root) v \<longrightarrow> insp g v = insp h v)"
  then show "serialize insp str n g root = map_option (\<lambda>x. (fst x, g)) (serialize insp str n h root)"
    using serialize_agree [of h root g insp str n] by blast
next
  fix out h1 m out2 h2
  assume runs: "serialize insp str n h root = Some (out, h1) \<and>
    serialize insp str m h1 root = Some (out2, h2)"
  then have h1: "h1 = h"
    using tag_nodes(1) by (auto simp: serialize_def split: option.splits sum.splits)
  from runs serialize_mono [of insp str n h root "(out, h1)" "max n m"]
    serialize_mono [of insp str m h1 root "(out2, h2)" "max n m"] h1
  show "out2 = out" and "h2 = h" by simp_all
qed

theorem serialize_depends_on_structure_witness:
  "same_structure (\<lambda>a. 8 - a) cyclic_heap 0 moved_heap \<and>
   host_agrees inspect_sample str_sample (\<lambda>a. 8 - a) cyclic_heap 0 moved_heap \<and>
   serialize inspect_sample str_sample 6 cyclic_heap 0 =
     Some (Inr (expected_output inspect_sample str_sample cyclic_heap [0, 2, 3, 5, 1, 7]),
       cyclic_heap) \<and>
   serialize inspect_sample str_sample 6 moved_heap 8 =
     Some (Inr (expected_output inspect_sample str_sample cyclic_heap [0, 2, 3, 5, 1, 7]),
       moved_heap)"
proof -
  let ?f = "\<lambda>a::nat. 8 - a"
  have "closed_heap cyclic_heap" and "0 < length cyclic_heap"
    by code_simp+
  then have "reachable_structure cyclic_heap 0 \<subseteq> {a. a < length cyclic_heap}"
    by (rule closed_heap_structure)
  moreover have "length cyclic_heap = 8"
    by code_simp
  ultimately have sub: "reachable_structure cyclic_heap 0 \<subseteq> {a. a < 8}" by simp
  have "inj_on ?f {a. a < 8}"
    by (auto simp: inj_on_def)
  then have inj: "inj_on ?f (reachable_structure cyclic_heap 0)"
    using sub by (rule inj_on_subset)
  have "list_all (\<lambda>a. lookup moved_heap (8 - a) = map_option (rename_obj ?f) (lookup cyclic_heap a))
      [0..<8]"
    by code_simp
  then have "\<forall>a<8. lookup moved_heap (8 - a) = map_option (rename_obj ?f) (lookup cyclic_heap a)"
    by (simp add: list_all_iff)
  with sub have "\<forall>a\<in>reachable_structure cyclic_heap 0.
      lookup moved_heap (8 - a) = map_option (rename_obj ?f) (lookup cyclic_heap a)"
    by blast
  with inj have iso: "same_structure ?f cyclic_heap 0 moved_heap"
    by (simp add: same_structure_def)
  have "inspect_sample h' (rename_val ?f v) = inspect_sample h v \<and>
      str_sample (rename_val ?f v) = str_sample v" for h h' v
    by (cases v) (simp_all add: inspect_sample_def str_sample_def)
  then have host: "host_agrees inspect_sample str_sample ?f cyclic_heap 0 moved_heap"
    by (simp add: host_agrees_def)
  have run: "serialize inspect_sample str_sample 6 cyclic_heap 0 =
     Some (Inr (expected_output inspect_sample str_sample cyclic_heap [0, 2, 3, 5, 1, 7]),
       cyclic_heap)"
    by code_simp
  from serialize_depends_on_structure [OF iso host, of 6]
  have "serialize inspect_sample str_sample 6 moved_heap (8 - 0) =
      map_option (\<lambda>x. (fst x, moved_heap)) (serialize inspect_sample str_sample 6 cyclic_heap 0)"
    by (rule conjunct1)
  with run have "serialize inspect_sample str_sample 6 moved_heap 8 =
     Some (Inr (expected_output inspect_sample str_sample cyclic_heap [0, 2, 3, 5, 1, 7]),
       moved_heap)"
    by simp
  with iso host run show ?thesis by blast
qed

lemma token_self_loop:
  assumes "lookup (nodes s) t = Some ob" and "is_Token ob"
    and "own_property (obj_entries ob) ''value'' = Ref t" and "\<not> has (tags s) t"
  shows "tag n (Ref t) s = None"
proof (induction n)
  case 0
  then show ?case by simp
next
  case (Suc n)
  with assms show ?case by simp
qed

lemma loop_heap_tag: "tag n (Ref 0) \<lparr>nodes = loop_heap, tags = []\<rparr> = None"
proof (cases n)
  case 0
  then show ?thesis by simp
next
  case (Suc k)
  let ?s = "\<lparr>nodes = loop_heap, tags = [(0, 1)]\<rparr>"
  have prog: "lookup loop_heap 0 = Some (Object ''Program'' [(''statements'', Ref 1)])"
    by (simp add: lookup_def loop_heap_def)
  have arr: "array_elems loop_heap (Ref 1) = Some [Ref 2, Ref 3]"
    by (simp add: array_elems_def lookup_def loop_heap_def)
  have tok: "lookup (nodes ?s) 2 = Some (Object ''Token''
      [(''category'', Prim (String ''id'')), (''source'', Ref 6), (''value'', Ref 2)])"
    by (simp add: lookup_def loop_heap_def)
  have "tag k (Ref 2) ?s = None"
    by (rule token_self_loop [OF tok]) (simp_all add: is_Token_def obj_entries_def own_property_def has_def)
  with Suc prog arr show ?thesis
    by (simp add: has_def is_Token_def obj_values_def set_next_def)
qed

lemma loop_heap_serialize: "serialize insp str n loop_heap 0 = None"
  by (simp add: serialize_def loop_heap_tag)

lemma loop_heap_reachable: "3 \<in> reachable_nodes loop_heap 0" "4 \<in> reachable_nodes loop_heap 0"
proof -
  have "lookup loop_heap 0 = Some (Object ''Program'' [(''statements'', Ref 1)])"
    and "array_elems loop_heap (Ref 1) = Some [Ref 2, Ref 3]"
    by (simp_all add: array_elems_def lookup_def loop_heap_def)
  then have e1: "(0, 3) \<in> edges loop_heap"
    by (simp add: edges_def succs_def is_Token_def obj_values_def flat_def)
  have l3: "lookup loop_heap 3 =
      Some (Object ''Assignment'' [(''target'', Ref 4), (''source'', Ref 4), (''op'', Ref 5)])"
    by (simp add: lookup_def loop_heap_def)
  have "array_elems loop_heap (Ref 4) = None"
    by (simp add: array_elems_def lookup_def loop_heap_def)
  with l3 have e2: "(3, 4) \<in> edges loop_heap"
    by (simp add: edges_def succs_def is_Token_def obj_values_def flat_def)
  from e1 have r3: "(0, 3) \<in> (edges loop_heap)\<^sup>*" by (rule r_into_rtrancl)
  from r3 e2 have r4: "(0, 4) \<in> (edges loop_heap)\<^sup>*" by (rule rtrancl_into_rtrancl)
  have "is_node loop_heap 3" "is_node loop_heap 4"
    by (simp_all add: is_node_def lookup_def loop_heap_def is_Token_def)
  with r3 r4 show "3 \<in> reachable_nodes loop_heap 0" "4 \<in> reachable_nodes loop_heap 0"
    by (simp_all add: reachable_nodes_def)
qed

text \<open>
  Claim C1. The claim holds of the specification and fails on the code: a token is never
  tagged, so the test that stops \<open>tag\<close> at a node seen before does not stop it at a token
  seen before. When the value of a token is the token itself, \<open>tag\<close> calls itself on the
  same token at every depth, and the serializer returns at no stack depth.
\<close>

theorem token_cycle_never_returns:
  "\<forall>n. serialize inspect_sample str_sample n token_loop_heap 0 = None"
proof
  fix n
  let ?s = "\<lparr>nodes = token_loop_heap, tags = [(0, 1)]\<rparr>"
  have prog: "lookup token_loop_heap 0 = Some (Object ''Program'' [(''statements'', Ref 1)])"
    by (simp add: lookup_def token_loop_heap_def)
  have arr: "array_elems token_loop_heap (Ref 1) = Some [Ref 2]"
    by (simp add: array_elems_def lookup_def token_loop_heap_def)
  have tok: "lookup (nodes ?s) 2 = Some (Object ''Token''
      [(''category'', Prim (String ''id'')), (''source'', Ref 3), (''value'', Ref 2)])"
    by (simp add: lookup_def token_loop_heap_def)
  have loop: "tag k (Ref 2) ?s = None" for k
    by (rule token_self_loop [OF tok]) (simp_all add: is_Token_def obj_entries_def own_property_def has_def)
  have "tag n (Ref 0) \<lparr>nodes = token_loop_heap, tags = []\<rparr> = None"
  proof (cases n)
    case 0
    then show ?thesis by simp
  next
    case (Suc k)
    with prog arr loop [of k] show ?thesis
      by (simp add: has_def is_Token_def obj_values_def set_next_def)
  qed
  then show "serialize inspect_sample str_sample n token_loop_heap 0 = None"
    by (simp add: serialize_def)
qed




lemma map_of_number_nth:
  assumes "distinct r" and "a \<in> set r"
  shows "\<exists>i. map_of (number r) a = Some i \<and> filter (\<lambda>e. fst e = a) (number r) = [(a, i)]"
proof -
  from map_of_number_seen [OF assms(2)] obtain i where i: "map_of (number r) a = Some i" by blast
  then have "(a, i) \<in> set (number r)" by (rule map_of_SomeD)
  moreover from assms(1) have "distinct (map fst (number r))" by simp
  ultimately have "filter (\<lambda>e. fst e = a) (number r) = [(a, i)]"
    by (rule filter_key_distinct [rotated])
  with i show ?thesis by blast
qed

lemma entry_value:
  assumes "j < length (obj_entries ob)" and "obj_entries ob ! j = (k, v)"
  shows "v \<in> set (obj_values ob)"
proof -
  from assms have "(k, v) \<in> set (obj_entries ob)" by (metis nth_mem)
  then have "v \<in> set (map snd (obj_entries ob))" by force
  then show ?thesis by (simp add: snd_obj_entries)
qed

lemma expected_props_nth:
  assumes "j < length (obj_entries ob)" and "obj_entries ob ! j = (k, v)"
  shows "expected_props insp str h t ob ! j = k @ ''='' @ render insp str h t v"
  using assms by (simp add: expected_props_def)

lemma settled_node:
  assumes "settled h r (Ref a)" and "is_node h a"
  shows "a \<in> set r"
  using assms by (cases rule: settled.cases) (auto simp: is_node_def)

text \<open>
  Claim C2, as amended. Where the chains of token values end and the lexemes can be read,
  the serializer returns the expected output, one line for each entry of the map. A class
  instance \<open>X\<close> that a property of a reachable node \<open>P\<close> holds, directly or as an element of
  the sequence that the property holds, has exactly one entry in the map, with a tag \<open>i\<close>,
  and so exactly one line, which starts with that tag and the name of its class. The
  holder has its own line, and in it a property that holds \<open>X\<close> directly reads \<open>key=#i\<close>;
  a property that holds an untagged sequence reads \<open>key=[...]\<close> with \<open>#i\<close> at every place of
  \<open>X\<close> in the sequence.
\<close>

theorem shared_node_once:
  assumes "tokens_end h" and "lexemes_defined h"
    and "P \<in> reachable_nodes h root" and "lookup h P = Some ob"
    and "j < length (obj_entries ob)" and "obj_entries ob ! j = (k, v)"
    and "Ref X \<in> set (flat h v)"
    and "lookup h X = Some (Object c ps)" and "c \<noteq> ''Token''"
  shows "\<exists>n order i iP.
    (\<forall>m\<ge>n. tag m (Ref root) \<lparr>nodes = h, tags = []\<rparr> = Some \<lparr>nodes = h, tags = number order\<rparr> \<and>
       serialize insp str m h root = Some (Inr (join [CHR 0x0A]
           (map (expected_line insp str h (number order)) (number order))), h)) \<and>
    filter (\<lambda>e. fst e = X) (number order) = [(X, i)] \<and>
    expected_line insp str h (number order) (X, i) =
      padStart 4 CHR '' '' (show_nat i) @ '' | '' @ c @ '' '' @
      join '' '' (expected_props insp str h (number order) (Object c ps)) \<and>
    filter (\<lambda>e. fst e = P) (number order) = [(P, iP)] \<and>
    expected_line insp str h (number order) (P, iP) =
      padStart 4 CHR '' '' (show_nat iP) @ '' | '' @ constructor_name ob @ '' '' @
      join '' '' (expected_props insp str h (number order) ob) \<and>
    (v = Ref X \<longrightarrow>
       expected_props insp str h (number order) ob ! j = k @ ''=#'' @ show_nat i) \<and>
    (\<forall>a es. v = Ref a \<and> lookup h a = Some (Array es) \<and> map_of (number order) a = None \<longrightarrow>
       expected_props insp str h (number order) ob ! j =
         k @ ''=['' @ join '','' (map (render1 insp str h (number order)) es) @ '']'' \<and>
       (\<forall>e<length es. es ! e = Ref X \<longrightarrow>
          map (render1 insp str h (number order)) es ! e = ''#'' @ show_nat i))"
proof -
  from serialize_spec [OF assms(1,2), of root insp str] obtain n r
    where r: "distinct r" "set r = reachable_nodes h root"
      and closed: "\<forall>a\<in>set r. \<forall>ob. lookup h a = Some ob \<longrightarrow> (\<forall>w\<in>set (succs h ob). settled h r w)"
      and run: "\<forall>m\<ge>n. dfs m h (Ref root) [] = Some r \<and>
        tag m (Ref root) \<lparr>nodes = h, tags = []\<rparr> = Some \<lparr>nodes = h, tags = number r\<rparr> \<and>
        serialize insp str m h root = Some (Inr (expected_output insp str h r), h)"
    by blast
  let ?t = "number r"
  from assms(3) r(2) have P: "P \<in> set r" by simp
  from assms(3,4) have node: "\<not> is_Token ob"
    by (simp add: reachable_nodes_def is_node_def)
  from flat_succs [OF node entry_value [OF assms(5,6)] assms(7)]
  have "Ref X \<in> set (succs h ob)" .
  with closed P assms(4) have "settled h r (Ref X)" by blast
  moreover from assms(8,9) have "is_node h X" by (simp add: is_node_def is_Token_def)
  ultimately have X: "X \<in> set r" by (rule settled_node)
  from map_of_number_nth [OF r(1) X] obtain i
    where i: "map_of ?t X = Some i" "filter (\<lambda>e. fst e = X) ?t = [(X, i)]" by blast
  from map_of_number_nth [OF r(1) P] obtain iP
    where iP: "map_of ?t P = Some iP" "filter (\<lambda>e. fst e = P) ?t = [(P, iP)]" by blast
  have r1: "render1 insp str h ?t (Ref X) = ''#'' @ show_nat i"
    using i(1) by (simp add: render1_def)
  from assms(8) have "array_elems h (Ref X) = None" by (simp add: array_elems_def)
  with r1 have rX: "render insp str h ?t (Ref X) = ''#'' @ show_nat i"
    by (simp add: render_def)
  have lineX: "expected_line insp str h ?t (X, i) =
      padStart 4 CHR '' '' (show_nat i) @ '' | '' @ c @ '' '' @
      join '' '' (expected_props insp str h ?t (Object c ps))"
    using assms(8) by (simp add: expected_line_def constructor_name_def)
  have lineP: "expected_line insp str h ?t (P, iP) =
      padStart 4 CHR '' '' (show_nat iP) @ '' | '' @ constructor_name ob @ '' '' @
      join '' '' (expected_props insp str h ?t ob)"
    using assms(4) by (simp add: expected_line_def)
  note field = expected_props_nth [OF assms(5,6), of insp str h ?t]
  have direct: "v = Ref X \<longrightarrow> expected_props insp str h ?t ob ! j = k @ ''=#'' @ show_nat i"
    using field rX by simp
  have seq: "\<forall>a es. v = Ref a \<and> lookup h a = Some (Array es) \<and> map_of ?t a = None \<longrightarrow>
       expected_props insp str h ?t ob ! j =
         k @ ''=['' @ join '','' (map (render1 insp str h ?t) es) @ '']'' \<and>
       (\<forall>e<length es. es ! e = Ref X \<longrightarrow>
          map (render1 insp str h ?t) es ! e = ''#'' @ show_nat i)"
    using field r1 by (auto simp: render_def array_elems_def has_def)
  from run i(2) lineX iP(2) lineP direct seq show ?thesis
    unfolding expected_output_def by blast
qed

lemma cyclic_heap_order: "dfs 6 cyclic_heap (Ref 0) [] = Some [0, 2, 3, 5, 1, 7]"
  by code_simp

theorem shared_node_once_witness:
  "tokens_end cyclic_heap \<and> lexemes_defined cyclic_heap \<and> 3 \<in> reachable_nodes cyclic_heap 0 \<and>
   lookup cyclic_heap 3 = Some (Object ''B'' [(''a'', Ref 2), (''xs'', Ref 5)]) \<and>
   lookup cyclic_heap 2 = Some (Object ''A'' [(''b'', Ref 3), (''t'', Ref 4)]) \<and>
   (\<exists>n. \<forall>m\<ge>n. serialize inspect_sample str_sample m cyclic_heap 0 =
      Some (Inr (expected_output inspect_sample str_sample cyclic_heap [0, 2, 3, 5, 1, 7]),
        cyclic_heap)) \<and>
   filter (\<lambda>e. fst e = 2) (number [0, 2, 3, 5, 1, 7]) = [(2, 2)] \<and>
   expected_props inspect_sample str_sample cyclic_heap (number [0, 2, 3, 5, 1, 7])
     (Object ''B'' [(''a'', Ref 2), (''xs'', Ref 5)]) ! 0 = ''a=#2'' \<and>
   expected_output inspect_sample str_sample cyclic_heap [0, 2, 3, 5, 1, 7] =
     join [CHR 0x0A]
       [''   1 | Program statements=#5'',
        ''   2 | A b=#3 t=(id,'' @ [CHR 0x22] @ ''foo'' @ [CHR 0x22] @ '')'',
        ''   3 | B a=#2 xs=#4'',
        ''   4 | Array 0=#4 1=#5 2=null'',
        ''   5 | Array 0=#2 1=#3 2=#2'',
        ''   6 | Variable name='' @ [CHR 0x27] @ ''foo'' @ [CHR 0x27]]"
proof -
  let ?B = "Object ''B'' [(''a'', Ref 2), (''xs'', Ref 5)]"
  let ?o = "[0, 2, 3, 5, 1, 7] :: addr list"
  have ends: "tokens_end cyclic_heap" and lex: "lexemes_defined cyclic_heap"
    by code_simp+
  from dfs_reachable_nodes(1) [OF cyclic_heap_order]
  have reach: "3 \<in> reachable_nodes cyclic_heap 0" by auto
  have P: "lookup cyclic_heap 3 = Some ?B"
    and X: "lookup cyclic_heap 2 = Some (Object ''A'' [(''b'', Ref 3), (''t'', Ref 4)])"
    by code_simp+
  have j: "0 < length (obj_entries ?B)" and field: "obj_entries ?B ! 0 = (''a'', Ref 2)"
    by (simp_all add: obj_entries_def)
  have held: "Ref 2 \<in> set (flat cyclic_heap (Ref 2))"
    by code_simp
  have cls: "''A'' \<noteq> ''Token''" by simp
  from shared_node_once [OF ends lex reach P j field held X cls, of inspect_sample str_sample]
  obtain n order i iP where
    run: "\<forall>m\<ge>n. tag m (Ref 0) \<lparr>nodes = cyclic_heap, tags = []\<rparr> =
        Some \<lparr>nodes = cyclic_heap, tags = number order\<rparr> \<and>
      serialize inspect_sample str_sample m cyclic_heap 0 =
        Some (Inr (join [CHR 0x0A]
          (map (expected_line inspect_sample str_sample cyclic_heap (number order)) (number order))),
          cyclic_heap)"
    and i: "filter (\<lambda>e. fst e = 2) (number order) = [(2, i)]"
    and p: "Ref 2 = Ref 2 \<longrightarrow>
      expected_props inspect_sample str_sample cyclic_heap (number order) ?B ! 0 =
        ''a'' @ ''=#'' @ show_nat i"
    by blast
  have init: "tags \<lparr>nodes = cyclic_heap, tags = []\<rparr> = number []" by (simp add: number_def)
  from run have "tag (max n 6) (Ref 0) \<lparr>nodes = cyclic_heap, tags = []\<rparr> =
      Some \<lparr>nodes = cyclic_heap, tags = number order\<rparr>" by simp
  moreover from cyclic_heap_order have "dfs (max n 6) cyclic_heap (Ref 0) [] = Some ?o"
    by (rule dfs_mono(1)) simp
  with tag_refines_dfs(1) [OF init, of "max n 6" "Ref 0"]
  have "tag (max n 6) (Ref 0) \<lparr>nodes = cyclic_heap, tags = []\<rparr> =
      Some \<lparr>nodes = cyclic_heap, tags = number ?o\<rparr>" by simp
  ultimately have "number order = number ?o" by simp
  then have "map fst (number order) = map fst (number ?o)" by simp
  then have order: "order = ?o" by simp
  have num: "number ?o = [(0, 1), (2, 2), (3, 3), (5, 4), (1, 5), (7, 6)]"
    by code_simp
  from i order num have "i = 2" by simp
  moreover have "show_nat 2 = ''2''" by code_simp
  moreover have "expected_output inspect_sample str_sample cyclic_heap ?o =
     join [CHR 0x0A]
       [''   1 | Program statements=#5'',
        ''   2 | A b=#3 t=(id,'' @ [CHR 0x22] @ ''foo'' @ [CHR 0x22] @ '')'',
        ''   3 | B a=#2 xs=#4'',
        ''   4 | Array 0=#4 1=#5 2=null'',
        ''   5 | Array 0=#2 1=#3 2=#2'',
        ''   6 | Variable name='' @ [CHR 0x27] @ ''foo'' @ [CHR 0x27]]"
    by code_simp
  ultimately show ?thesis
    using ends lex reach P X run i p order num by (auto simp: expected_output_def)
qed

lemma sourceless_heap_throws:
  "serialize inspect_sample str_sample 5 sourceless_heap 0 = Some (Inl TypeError, sourceless_heap)"
  by code_simp

text \<open>
  The claim as stated fails. In \<open>loop_heap\<close> the two properties \<open>target\<close> and \<open>source\<close> of the
  reachable assignment hold the same variable, and the serializer returns at no stack
  depth, because of the token that is its own value: the variable gets no tag and no
  line. In \<open>sourceless_heap\<close> the serializer throws when it reads the lexeme of the token
  without a source, and again no line is printed.
\<close>

theorem shared_node_never_printed:
  "(\<forall>n. serialize inspect_sample str_sample n loop_heap 0 = None) \<and>
   3 \<in> reachable_nodes loop_heap 0 \<and>
   lookup loop_heap 3 =
     Some (Object ''Assignment'' [(''target'', Ref 4), (''source'', Ref 4), (''op'', Ref 5)]) \<and>
   serialize inspect_sample str_sample 5 sourceless_heap 0 = Some (Inl TypeError, sourceless_heap)"
proof -
  have "lookup loop_heap 3 =
     Some (Object ''Assignment'' [(''target'', Ref 4), (''source'', Ref 4), (''op'', Ref 5)])"
    by (simp add: lookup_def loop_heap_def)
  with loop_heap_serialize loop_heap_reachable(1) sourceless_heap_throws show ?thesis by simp
qed




end
